theory Spec2Isabelle
  imports Main "HOL-Library.AList"
begin

section \<open>Protocol values\<close>

text \<open>
  The values that travel in protocol messages and in the arguments of generated commands.
  JavaScript numbers are modelled by the integers (message ids, error codes and argument
  values are integers here; NaN and fractions are outside the model), plain objects by the
  list of their own properties in insertion order, arrays by the list of their elements.
  Functions are not values of the model: a protocol message is a JSON text and holds none.
\<close>

datatype jsval =
    JUndefined
  | JNull
  | JBool bool
  | JNum int
  | JStr string
  | JObj "(string \<times> jsval) list"
  | JArr "jsval list"

text \<open>JavaScript truthiness, as used by \<^verbatim>\<open>if (x)\<close>, \<^verbatim>\<open>x || y\<close> and \<^verbatim>\<open>x && y\<close>.\<close>

fun truthy :: "jsval \<Rightarrow> bool" where
  "truthy JUndefined = False"
| "truthy JNull = False"
| "truthy (JBool b) = b"
| "truthy (JNum n) = (n \<noteq> 0)"
| "truthy (JStr s) = (s \<noteq> [])"
| "truthy (JObj ps) = True"
| "truthy (JArr xs) = True"

text \<open>The \<^verbatim>\<open>typeof\<close> operator.\<close>

fun typeof :: "jsval \<Rightarrow> string" where
  "typeof JUndefined = ''undefined''"
| "typeof JNull = ''object''"
| "typeof (JBool b) = ''boolean''"
| "typeof (JNum n) = ''number''"
| "typeof (JStr s) = ''string''"
| "typeof (JObj ps) = ''object''"
| "typeof (JArr xs) = ''object''"

text \<open>\<^verbatim>\<open>v || null\<close>.\<close>

definition orNull :: "jsval \<Rightarrow> jsval" where
  "orNull v = (if truthy v then v else JNull)"

text \<open>The decimal digits of a number, as in a template string or in the name of an index.\<close>

fun decimal :: "nat \<Rightarrow> string" where
  "decimal n =
     (if n < 10 then [char_of (48 + n)] else decimal (n div 10) @ [char_of (48 + n mod 10)])"

declare decimal.simps [simp del]

text \<open>
  The own properties of a value that the model knows: the properties of a plain object,
  and \<^verbatim>\<open>length\<close> and the indices of an array and of a string (a primitive string is read
  through its wrapper object, whose indices give the strings of one character).
\<close>

fun ownProperty :: "jsval \<Rightarrow> string \<Rightarrow> jsval option" where
  "ownProperty (JObj ps) name = map_of ps name"
| "ownProperty (JArr xs) name =
     (if name = ''length'' then Some (JNum (int (length xs)))
      else map_option (\<lambda>i. xs ! i) (find (\<lambda>i. decimal i = name) [0..<length xs]))"
| "ownProperty (JStr s) name =
     (if name = ''length'' then Some (JNum (int (length s)))
      else map_option (\<lambda>i. JStr [s ! i]) (find (\<lambda>i. decimal i = name) [0..<length s]))"
| "ownProperty v name = None"

text \<open>
  \<^verbatim>\<open>v[name]\<close> for a value that is not null or undefined (there the read throws, and the
  code makes none): the own property when there is one, and otherwise what the realm
  gives. \<open>inherited\<close> stands for the rest of the lookup, which depends on objects outside
  this layer: the prototype chain of the value (\<^verbatim>\<open>Object.prototype\<close>,
  \<^verbatim>\<open>String.prototype\<close> and so on, which any script may extend); it gives undefined for
  a name that is found nowhere. A property whose value is a function (a method of a
  prototype) is outside the model.
\<close>

definition getProperty :: "(jsval \<Rightarrow> string \<Rightarrow> jsval) \<Rightarrow> jsval \<Rightarrow> string \<Rightarrow> jsval" where
  "getProperty inherited v name =
     (case ownProperty v name of Some x \<Rightarrow> x | None \<Rightarrow> inherited v name)"

definition DevToolsStubErrorCode :: int where
  "DevToolsStubErrorCode = - 32015"

definition GenericError :: int where
  "GenericError = - 32000"

definition ConnectionClosedErrorCode :: int where
  "ConnectionClosedErrorCode = - 32001"

text \<open>
  The wire envelope \<^verbatim>\<open>Message\<close>. An absent field is \<open>None\<close> (for \<^verbatim>\<open>sessionId\<close>,
  \<^verbatim>\<open>id\<close>, \<^verbatim>\<open>method\<close>) or \<open>JUndefined\<close> (for \<^verbatim>\<open>error\<close>, \<^verbatim>\<open>result\<close>, \<^verbatim>\<open>params\<close>).
  A message is modelled after parsing: \<^verbatim>\<open>JSON.parse\<close> and \<^verbatim>\<open>JSON.stringify\<close> of
  messages are the identity of the model.
\<close>

record Message =
  msg_sessionId :: "string option"
  msg_id :: "nat option"
  msg_error :: jsval
  msg_result :: jsval
  msg_method :: "string option"
  msg_params :: jsval

section \<open>Callbacks, connections, sessions and routers\<close>

text \<open>
  A \<^verbatim>\<open>Callback\<close> is either a function of the client, opaque to this layer and
  identified by a number (calling it is recorded in the trace), or the closure that
  \<^verbatim>\<open>_sendMessageToBackendPromise\<close> builds around the \<^verbatim>\<open>resolve\<close> function of its promise:
  it holds the promise (its address), the method and \<^verbatim>\<open>this._replyArgs[method]\<close>.
\<close>

datatype Callback =
    ClientCallback nat
  | PromiseCallback nat string "string list"

record CallbackWithDebugInfo =
  callback :: Callback
  methodName :: string

text \<open>
  A \<^verbatim>\<open>Connection\<close> object: its identity and whether its \<^verbatim>\<open>_onMessage\<close> member is set
  (the class declares it as a function or null).
\<close>

datatype Connection = Connection nat bool

fun hasOnMessage :: "Connection \<Rightarrow> bool" where
  "hasOnMessage (Connection c h) = h"

text \<open>
  A session record. \<^verbatim>\<open>target\<close> is the address of the \<^verbatim>\<open>TargetBase\<close> object; the
  \<^verbatim>\<open>callbacks\<close> map is a JavaScript \<^verbatim>\<open>Map\<close>, an association list in insertion order
  (\<^verbatim>\<open>get\<close> is \<open>map_of\<close>, \<^verbatim>\<open>set\<close> is \<open>AList.update\<close>, \<^verbatim>\<open>delete\<close> is \<open>AList.delete\<close>,
  \<^verbatim>\<open>values()\<close> is \<open>map snd\<close>).
\<close>

record Session =
  target :: nat
  callbacks :: "(nat \<times> CallbackWithDebugInfo) list"
  proxyConnection :: "Connection option"

text \<open>
  A script handed to the drain barrier is a function of the client. It is modelled by a
  label and the calls it makes on routers (by address) when it runs; running it is
  recorded in the trace under its label.
\<close>

datatype script = Script nat "command list"
and command =
    RegisterSession nat nat string "Connection option"
  | UnregisterSession nat string
  | SendMessage nat string string string jsval Callback
  | OnMessage nat Message
  | RunAfterPendingDispatches nat script

record SessionRouter =
  connection :: Connection
  lastMessageId :: nat
  pendingResponsesCount :: int
  pendingLongPollingMessageIds :: "nat set"
  sessions :: "(string \<times> Session) list"
  pendingScripts :: "script list"

record TargetBase =
  needsNodeJSPatching :: bool
  sessionId :: string
  router :: "nat option"

section \<open>The world: object store, macrotask queue and trace\<close>

text \<open>
  A macrotask queued by \<^verbatim>\<open>setTimeout(f, 0)\<close>: the closure \<^verbatim>\<open>() => callback(error, null)\<close>
  of the two error dispatchers, or the closure of \<^verbatim>\<open>_deprecatedRunAfterPendingDispatches\<close>
  of the router at the given address.
\<close>

datatype task =
    CallbackTimer Callback jsval
  | DrainTimer nat

text \<open>What the layer does to its environment, in the order in which it happens.\<close>

datatype effect =
    ConsoleError string
  | ProtocolError string Message
  | RequestFailed string jsval
  | RawMessageSent Connection Message
  | ProxyMessage Connection Message
  | CallbackInvoked Callback jsval jsval
  | EventDispatched nat Message
  | ScriptRun nat

text \<open>
  An exception, and the state of a promise: pending, fulfilled with a value, or rejected
  with what was thrown.
\<close>

datatype error = Error string | TypeError string

datatype promise = Pending | Resolved jsval | Rejected error

text \<open>
  The world: the objects of the layer in a store, the macrotask queue, the trace, the
  flag \<^verbatim>\<open>test.suppressRequestErrors\<close>, and \<open>realm\<close>, what the prototype chains of the
  realm give for a property that a value does not have itself (see \<open>getProperty\<close>).
\<close>

record world =
  routers :: "nat \<Rightarrow> SessionRouter"
  nextRouter :: nat
  targets :: "nat \<Rightarrow> TargetBase"
  nextTarget :: nat
  promises :: "nat \<Rightarrow> promise"
  nextPromise :: nat
  tasks :: "task list"
  trace :: "effect list"
  suppressRequestErrors :: bool
  realm :: "jsval \<Rightarrow> string \<Rightarrow> jsval"

definition emit :: "effect \<Rightarrow> world \<Rightarrow> world" where
  "emit e w = w\<lparr>trace := trace w @ [e]\<rparr>"

definition setTimeout :: "task \<Rightarrow> world \<Rightarrow> world" where
  "setTimeout t w = w\<lparr>tasks := tasks w @ [t]\<rparr>"

definition updateRouter :: "nat \<Rightarrow> (SessionRouter \<Rightarrow> SessionRouter) \<Rightarrow> world \<Rightarrow> world" where
  "updateRouter this f w = w\<lparr>routers := (routers w)(this := f (routers w this))\<rparr>"

text \<open>
  \<^verbatim>\<open>InspectorBackend.reportProtocolError\<close> writes the error and the message to the console.
\<close>

definition reportProtocolError :: "string \<Rightarrow> Message \<Rightarrow> world \<Rightarrow> world" where
  "reportProtocolError error messageObject w = emit (ProtocolError error messageObject) w"

section \<open>SessionRouter\<close>

definition registerSession :: "nat \<Rightarrow> nat \<Rightarrow> string \<Rightarrow> Connection option \<Rightarrow> world \<Rightarrow> world" where
  "registerSession this tgt sid proxy w =
     (let w1 =
        (if proxy \<noteq> None \<and> list_ex (\<lambda>session. proxyConnection session \<noteq> None)
                                  (map snd (sessions (routers w this)))
         then emit (ConsoleError ''Multiple simultaneous proxy connections are currently unsupported'') w
         else w)
      in updateRouter this
           (\<lambda>r. r\<lparr>sessions :=
                     AList.update sid \<lparr>target = tgt, callbacks = [], proxyConnection = proxy\<rparr>
                       (sessions r)\<rparr>) w1)"

definition connectionError :: "string \<Rightarrow> string \<Rightarrow> jsval" where
  "connectionError prefix m =
     JObj [(''message'', JStr (prefix @ m)),
           (''code'', JNum ConnectionClosedErrorCode),
           (''data'', JNull)]"

definition dispatchConnectionError :: "Callback \<Rightarrow> string \<Rightarrow> world \<Rightarrow> world" where
  "dispatchConnectionError cb m w =
     setTimeout
       (CallbackTimer cb (connectionError ''Connection is closed, can't dispatch pending call to '' m)) w"

definition dispatchUnregisterSessionError :: "CallbackWithDebugInfo \<Rightarrow> world \<Rightarrow> world" where
  "dispatchUnregisterSessionError c w =
     setTimeout
       (CallbackTimer (callback c)
          (connectionError ''Session is unregistering, can't dispatch pending call to '' (methodName c))) w"

definition unregisterSession :: "nat \<Rightarrow> string \<Rightarrow> world \<Rightarrow> world" where
  "unregisterSession this sid w =
     (case map_of (sessions (routers w this)) sid of
        None \<Rightarrow> w
      | Some session \<Rightarrow>
          updateRouter this (\<lambda>r. r\<lparr>sessions := AList.delete sid (sessions r)\<rparr>)
            (fold dispatchUnregisterSessionError (map snd (callbacks session)) w))"

definition LongPollingMethods :: "string set" where
  "LongPollingMethods = {''CSS.takeComputedStyleUpdates''}"

text \<open>
  \<^verbatim>\<open>sendMessage\<close>. The message id is \<^verbatim>\<open>this._lastMessageId++\<close>. The hooks of the
  \<^verbatim>\<open>test\<close> object (\<^verbatim>\<open>dumpProtocol\<close>, \<^verbatim>\<open>onMessageSent\<close>, \<^verbatim>\<open>onMessageReceived\<close>) are
  null, as the module initialises them.
\<close>

definition sendMessage ::
    "nat \<Rightarrow> string \<Rightarrow> string \<Rightarrow> string \<Rightarrow> jsval \<Rightarrow> Callback \<Rightarrow> world \<Rightarrow> world" where
  "sendMessage this sid domain meth params cb w =
     (let messageId = lastMessageId (routers w this);
          messageObject =
            \<lparr>msg_sessionId = (if sid \<noteq> [] then Some sid else None),
             msg_id = Some messageId,
             msg_error = JUndefined,
             msg_result = JUndefined,
             msg_method = Some meth,
             msg_params = (if truthy params then params else JUndefined)\<rparr>;
          w1 = updateRouter this
                 (\<lambda>r. r\<lparr>lastMessageId := lastMessageId r + 1,
                         pendingResponsesCount := pendingResponsesCount r + 1,
                         pendingLongPollingMessageIds :=
                           (if meth \<in> LongPollingMethods
                            then insert messageId (pendingLongPollingMessageIds r)
                            else pendingLongPollingMessageIds r)\<rparr>) w
      in case map_of (sessions (routers w1 this)) sid of
           None \<Rightarrow> w1
         | Some session \<Rightarrow>
             emit (RawMessageSent (connection (routers w1 this)) messageObject)
               (updateRouter this
                  (\<lambda>r. r\<lparr>sessions :=
                            AList.update sid
                              (session\<lparr>callbacks :=
                                  AList.update messageId \<lparr>callback = cb, methodName = meth\<rparr>
                                    (callbacks session)\<rparr>)
                              (sessions r)\<rparr>) w1))"

definition hasOutstandingNonLongPollingRequests :: "SessionRouter \<Rightarrow> bool" where
  "hasOutstandingNonLongPollingRequests r =
     (pendingResponsesCount r - int (card (pendingLongPollingMessageIds r)) > 0)"

definition deprecatedRunAfterPendingDispatches :: "nat \<Rightarrow> script option \<Rightarrow> world \<Rightarrow> world" where
  "deprecatedRunAfterPendingDispatches this scr w =
     setTimeout (DrainTimer this)
       (case scr of
          None \<Rightarrow> w
        | Some s \<Rightarrow> updateRouter this (\<lambda>r. r\<lparr>pendingScripts := pendingScripts r @ [s]\<rparr>) w)"

subsection \<open>Calling a callback\<close>

text \<open>
  The two functions that a promise hands to its executor settle it once: they do nothing
  when it is settled already. No value of the model is a thenable (none has a function as
  its \<^verbatim>\<open>then\<close>), so \<^verbatim>\<open>resolve(v)\<close> fulfils the promise with \<open>v\<close>.
\<close>

definition resolve :: "nat \<Rightarrow> jsval \<Rightarrow> world \<Rightarrow> world" where
  "resolve p v w =
     (if promises w p = Pending then w\<lparr>promises := (promises w)(p := Resolved v)\<rparr> else w)"

definition reject :: "nat \<Rightarrow> error \<Rightarrow> world \<Rightarrow> world" where
  "reject p e w =
     (if promises w p = Pending then w\<lparr>promises := (promises w)(p := Rejected e)\<rparr> else w)"

text \<open>
  The body of a callback. For the closure of \<^verbatim>\<open>_sendMessageToBackendPromise\<close> this is the
  source's arrow function \<^verbatim>\<open>(error, result) => {...}\<close>.
\<close>

fun callbackBody :: "Callback \<Rightarrow> jsval \<Rightarrow> jsval \<Rightarrow> world \<Rightarrow> world" where
  "callbackBody (ClientCallback n) error result w = w"
| "callbackBody (PromiseCallback p meth args) error result w =
     (if truthy error then
        resolve p JNull
          (if \<not> suppressRequestErrors w
              \<and> getProperty (realm w) error ''code'' \<noteq> JNum DevToolsStubErrorCode
              \<and> getProperty (realm w) error ''code'' \<noteq> JNum GenericError
              \<and> getProperty (realm w) error ''code'' \<noteq> JNum ConnectionClosedErrorCode
           then emit (RequestFailed meth error) w
           else w)
      else
        resolve p
          (if truthy result \<and> args \<noteq> [] then getProperty (realm w) result (hd args)
           else JUndefined) w)"

definition invokeCallback :: "Callback \<Rightarrow> jsval \<Rightarrow> jsval \<Rightarrow> world \<Rightarrow> world" where
  "invokeCallback cb error result w =
     callbackBody cb error result (emit (CallbackInvoked cb error result) w)"

subsection \<open>Incoming messages\<close>

text \<open>
  \<^verbatim>\<open>NodeURL.patch\<close> lives in another module; it is a parameter of the model, applied
  where the source applies it (it rewrites the message object in place).
\<close>

type_synonym patcher = "Message \<Rightarrow> Message"

text \<open>The loop of \<^verbatim>\<open>_onMessage\<close> over \<^verbatim>\<open>this._sessions.values()\<close>.\<close>

fun sendToProxyConnections :: "Message \<Rightarrow> Session list \<Rightarrow> bool \<Rightarrow> world \<Rightarrow> bool \<times> world" where
  "sendToProxyConnections messageObject [] suppress w = (suppress, w)"
| "sendToProxyConnections messageObject (session # rest) suppress w =
     (case proxyConnection session of
        None \<Rightarrow> sendToProxyConnections messageObject rest suppress w
      | Some proxy \<Rightarrow>
          if \<not> hasOnMessage proxy then
            sendToProxyConnections messageObject rest suppress
              (reportProtocolError
                 ''Protocol Error: the session has a proxyConnection with no _onMessage''
                 messageObject w)
          else
            sendToProxyConnections messageObject rest True
              (emit (ProxyMessage proxy messageObject) w))"

text \<open>\<^verbatim>\<open>messageObject.sessionId || ''\<close>.\<close>

definition resolvedSessionId :: "Message \<Rightarrow> string" where
  "resolvedSessionId message = (case msg_sessionId message of None \<Rightarrow> [] | Some s \<Rightarrow> s)"

text \<open>
  \<^verbatim>\<open>if (session.target._needsNodeJSPatching) { NodeURL.patch(messageObject); }\<close>: the
  message object as the rest of \<^verbatim>\<open>_onMessage\<close> reads it.
\<close>

definition patched :: "patcher \<Rightarrow> world \<Rightarrow> Session \<Rightarrow> Message \<Rightarrow> Message" where
  "patched patch w session message =
     (if needsNodeJSPatching (targets w (target session)) then patch message else message)"

text \<open>
  \<^verbatim>\<open>_onMessage\<close>. Its branch for a message with an id (\<^verbatim>\<open>messageObject.id !== undefined\<close>,
  "just a response for some request") is \<open>onResponse\<close>; \<open>session\<close> is the session record
  found under \<open>sid\<close> and \<open>i\<close> the id of the message.
\<close>

definition onResponse ::
    "nat \<Rightarrow> string \<Rightarrow> Session \<Rightarrow> Message \<Rightarrow> nat \<Rightarrow> bool \<Rightarrow> world \<Rightarrow> world" where
  "onResponse this sid session messageObject i suppressUnknownMessageErrors w1 =
     (let cb = map_of (callbacks session) i;
          w2 = updateRouter this
                 (\<lambda>r. r\<lparr>sessions :=
                           AList.update sid
                             (session\<lparr>callbacks := AList.delete i (callbacks session)\<rparr>)
                             (sessions r)\<rparr>) w1
      in case cb of
           None \<Rightarrow>
             if \<not> suppressUnknownMessageErrors
             then reportProtocolError ''Protocol Error: the message with wrong id'' messageObject w2
             else w2
         | Some c \<Rightarrow>
             let w3 = invokeCallback (callback c)
                        (orNull (msg_error messageObject))
                        (orNull (msg_result messageObject)) w2;
                 w4 = updateRouter this
                        (\<lambda>r. r\<lparr>pendingResponsesCount := pendingResponsesCount r - 1,
                                pendingLongPollingMessageIds :=
                                  pendingLongPollingMessageIds r - {i}\<rparr>) w3
             in if pendingScripts (routers w4 this) \<noteq> []
                   \<and> \<not> hasOutstandingNonLongPollingRequests (routers w4 this)
                then deprecatedRunAfterPendingDispatches this None w4
                else w4)"

definition onMessage :: "patcher \<Rightarrow> nat \<Rightarrow> Message \<Rightarrow> world \<Rightarrow> world" where
  "onMessage patch this message w =
     (let (suppressUnknownMessageErrors, w1) =
            sendToProxyConnections message (map snd (sessions (routers w this))) False w;
          sid = resolvedSessionId message
      in case map_of (sessions (routers w1 this)) sid of
           None \<Rightarrow>
             if \<not> suppressUnknownMessageErrors
             then reportProtocolError ''Protocol Error: the message with wrong session id'' message w1
             else w1
         | Some session \<Rightarrow>
             if proxyConnection session \<noteq> None then w1
             else
               let messageObject = patched patch w1 session message
               in (case msg_id messageObject of
                     Some i \<Rightarrow>
                       onResponse this sid session messageObject i suppressUnknownMessageErrors w1
                   | None \<Rightarrow>
                       (case msg_method messageObject of
                          None \<Rightarrow>
                            reportProtocolError
                              ''Protocol Error: the message without method'' messageObject w1
                        | Some m \<Rightarrow> emit (EventDispatched (target session) messageObject) w1)))"

subsection \<open>The drain barrier and the event loop\<close>

fun execCommand :: "patcher \<Rightarrow> command \<Rightarrow> world \<Rightarrow> world" where
  "execCommand patch (RegisterSession this tgt sid proxy) w = registerSession this tgt sid proxy w"
| "execCommand patch (UnregisterSession this sid) w = unregisterSession this sid w"
| "execCommand patch (SendMessage this sid domain meth params cb) w =
     sendMessage this sid domain meth params cb w"
| "execCommand patch (OnMessage this message) w = onMessage patch this message w"
| "execCommand patch (RunAfterPendingDispatches this s) w =
     deprecatedRunAfterPendingDispatches this (Some s) w"

fun runScript :: "patcher \<Rightarrow> script \<Rightarrow> world \<Rightarrow> world" where
  "runScript patch (Script l cs) w = fold (execCommand patch) cs (emit (ScriptRun l) w)"

definition executeAfterPendingDispatches :: "patcher \<Rightarrow> nat \<Rightarrow> world \<Rightarrow> world" where
  "executeAfterPendingDispatches patch this w =
     (if \<not> hasOutstandingNonLongPollingRequests (routers w this) then
        let scripts = pendingScripts (routers w this)
        in fold (runScript patch) scripts
             (updateRouter this (\<lambda>r. r\<lparr>pendingScripts := []\<rparr>) w)
      else w)"

text \<open>Running a macrotask; \<open>tick\<close> takes the oldest one from the queue.\<close>

fun runTask :: "patcher \<Rightarrow> task \<Rightarrow> world \<Rightarrow> world" where
  "runTask patch (CallbackTimer cb error) w = invokeCallback cb error JNull w"
| "runTask patch (DrainTimer this) w =
     (if \<not> hasOutstandingNonLongPollingRequests (routers w this)
      then executeAfterPendingDispatches patch this w
      else deprecatedRunAfterPendingDispatches this None w)"

definition tick :: "patcher \<Rightarrow> world \<Rightarrow> world" where
  "tick patch w = (case tasks w of [] \<Rightarrow> w | t # ts \<Rightarrow> runTask patch t (w\<lparr>tasks := ts\<rparr>))"

text \<open>
  What can happen to the layer from outside: a call of a router method (by a client or by
  the transport, for \<open>OnMessage\<close>), or a turn of the event loop.
\<close>

datatype op = Call command | Tick

fun exec :: "patcher \<Rightarrow> op \<Rightarrow> world \<Rightarrow> world" where
  "exec patch (Call c) w = execCommand patch c w"
| "exec patch Tick w = tick patch w"

definition run :: "patcher \<Rightarrow> op list \<Rightarrow> world \<Rightarrow> world" where
  "run patch ops w = fold (exec patch) ops w"

section \<open>TargetBase\<close>

text \<open>
  The constructor of \<^verbatim>\<open>SessionRouter\<close>: a new object in the store. Its handlers on the
  connection and the bindings of the \<^verbatim>\<open>test\<close> object are not part of the model (the
  transport delivers a message by \<open>OnMessage\<close>).
\<close>

definition newRouter :: "Connection \<Rightarrow> SessionRouter" where
  "newRouter c =
     \<lparr>connection = c, lastMessageId = 1, pendingResponsesCount = 0,
      pendingLongPollingMessageIds = {}, sessions = [], pendingScripts = []\<rparr>"

definition newSessionRouter :: "Connection \<Rightarrow> world \<Rightarrow> nat \<times> world" where
  "newSessionRouter c w =
     (nextRouter w,
      w\<lparr>routers := (routers w)(nextRouter w := newRouter c), nextRouter := nextRouter w + 1\<rparr>)"

text \<open>
  The constructor of \<^verbatim>\<open>TargetBase\<close>. \<open>parentTarget\<close> is an address or null, \<open>conn\<close>
  a connection or null. \<open>factory\<close> stands for the module variable \<^verbatim>\<open>_factory\<close>: \<open>None\<close>
  while \<^verbatim>\<open>Connection.setFactory\<close> has not been called (calling it is a TypeError), else the
  connection it returns. The result is the exception thrown or the address of the new
  target, with the world as it is then; an object whose constructor throws is unreachable
  and is not put in the store. The agents and the dispatchers of the target, copied from
  the registry, are not part of the model.
\<close>

definition newTargetBase ::
    "Connection option \<Rightarrow> bool \<Rightarrow> nat option \<Rightarrow> string \<Rightarrow> Connection option \<Rightarrow> world
       \<Rightarrow> (error + nat) \<times> world" where
  "newTargetBase factory patching parentTarget sid conn w =
     (if (parentTarget = None \<and> conn \<noteq> None) \<or> (parentTarget = None \<and> sid \<noteq> [])
         \<or> (conn \<noteq> None \<and> sid \<noteq> [])
      then (Inl (Error ''Either connection or sessionId (but not both) must be supplied for a child target''), w)
      else
        let this = nextTarget w;
            parentRouter = (case parentTarget of None \<Rightarrow> None | Some parent \<Rightarrow> router (targets w parent));
            chosen =
              (if sid \<noteq> [] \<and> parentTarget \<noteq> None \<and> parentRouter \<noteq> None
               then (case parentRouter of Some r \<Rightarrow> Some (r, w) | None \<Rightarrow> None)
               else (case conn of
                       Some c \<Rightarrow> Some (newSessionRouter c w)
                     | None \<Rightarrow> (case factory of
                                  Some c \<Rightarrow> Some (newSessionRouter c w)
                                | None \<Rightarrow> None)))
        in case chosen of
             None \<Rightarrow> (Inl (TypeError ''_factory is not a function''), w)
           | Some (r, w1) \<Rightarrow>
               (Inr this,
                registerSession r this sid None
                  (w1\<lparr>targets := (targets w1)(this :=
                          \<lparr>needsNodeJSPatching = patching, sessionId = sid, router = Some r\<rparr>),
                      nextTarget := this + 1\<rparr>)))"


section \<open>Generated commands\<close>

record CommandParameter =
  name :: string
  type :: string
  optional :: bool

definition quoted :: "string \<Rightarrow> string" where
  "quoted s = [CHR 0x27] @ s @ [CHR 0x27]"

text \<open>
  The loop of \<^verbatim>\<open>_prepareParameters\<close> and the check behind it. \<open>signature\<close> is
  \<^verbatim>\<open>JSON.stringify(parameters)\<close>. The result is the list of the messages given to
  \<^verbatim>\<open>errorCallback\<close>, in order, and the value returned. \<^verbatim>\<open>args.shift()\<close> of an empty array
  is undefined and leaves it empty.
\<close>

fun prepareParametersLoop ::
    "string \<Rightarrow> string \<Rightarrow> CommandParameter list \<Rightarrow> jsval list \<Rightarrow> (string \<times> jsval) list \<Rightarrow> bool
       \<Rightarrow> string list \<times> jsval" where
  "prepareParametersLoop meth signature [] args params hasParams =
     (if args \<noteq> [] then
        ([''Protocol Error: Extra '' @ decimal (length args) @ '' arguments in a call to method ''
            @ quoted meth @ ''.''], JNull)
      else ([], if hasParams then JObj params else JNull))"
| "prepareParametersLoop meth signature (param # rest) args params hasParams =
     (if args = [] \<and> \<not> optional param then
        ([''Protocol Error: Invalid number of arguments for method '' @ quoted meth @ '' call. ''
            @ ''It must have the following arguments '' @ signature @ [CHR 0x27] @ ''.''], JNull)
      else
        let v = (case args of [] \<Rightarrow> JUndefined | a # as \<Rightarrow> a);
            args' = (case args of [] \<Rightarrow> [] | a # as \<Rightarrow> as)
        in if optional param \<and> typeof v = ''undefined'' then
             prepareParametersLoop meth signature rest args' params hasParams
           else if typeof v \<noteq> type param then
             ([''Protocol Error: Invalid type of argument '' @ quoted (name param)
                 @ '' for method '' @ quoted meth @ '' call. ''
                 @ ''It must be '' @ quoted (type param) @ '' but it is '' @ quoted (typeof v) @ ''.''],
              JNull)
           else
             prepareParametersLoop meth signature rest args'
               (AList.update (name param) v params) True)"

text \<open>\<^verbatim>\<open>JSON.stringify\<close> of a parameter list is a parameter of the model.\<close>

definition prepareParameters ::
    "(CommandParameter list \<Rightarrow> string) \<Rightarrow> string \<Rightarrow> CommandParameter list \<Rightarrow> jsval list
       \<Rightarrow> string list \<times> jsval" where
  "prepareParameters stringify meth parameters args =
     prepareParametersLoop meth (stringify parameters) parameters args [] False"

text \<open>
  \<^verbatim>\<open>new Promise(executor)\<close>: a new pending promise in the store, and the executor run at
  once with it. The executor returns what it throws, if it throws, and the world as it
  has left it; a promise whose executor throws is rejected with what was thrown.
  \<^verbatim>\<open>Promise.resolve(v)\<close> is a new promise fulfilled with \<open>v\<close>.
\<close>

definition newPromise :: "(nat \<Rightarrow> world \<Rightarrow> error option \<times> world) \<Rightarrow> world \<Rightarrow> nat \<times> world" where
  "newPromise executor w =
     (let p = nextPromise w;
          (thrown, w1) = executor p (w\<lparr>promises := (promises w)(p := Pending), nextPromise := p + 1\<rparr>)
      in case thrown of
           None \<Rightarrow> (p, w1)
         | Some e \<Rightarrow> (p, reject p e w1))"

definition promiseResolve :: "jsval \<Rightarrow> world \<Rightarrow> nat \<times> world" where
  "promiseResolve v w = newPromise (\<lambda>p w1. (None, resolve p v w1)) w"

text \<open>
  \<^verbatim>\<open>_sendMessageToBackendPromise\<close> of an agent with the fields \<^verbatim>\<open>_target\<close> (\<open>tgt\<close>, an
  address) and \<^verbatim>\<open>_domain\<close>; \<open>replyArgs\<close> is \<^verbatim>\<open>this._replyArgs[method]\<close>, which
  \<^verbatim>\<open>registerCommand\<close> stores together with the generated method. The result is the address
  of the promise returned. \<^verbatim>\<open>onError\<close> writes each message to the console and keeps the
  last one in \<^verbatim>\<open>errorMessage\<close>. The executor of the promise builds the callback around
  \<^verbatim>\<open>resolve\<close> and hands it to the router or to \<^verbatim>\<open>dispatchConnectionError\<close>; nothing in it
  throws.
\<close>

definition sendMessageToBackendPromise ::
    "(CommandParameter list \<Rightarrow> string) \<Rightarrow> nat \<Rightarrow> string \<Rightarrow> string list \<Rightarrow> string
       \<Rightarrow> CommandParameter list \<Rightarrow> jsval list \<Rightarrow> world \<Rightarrow> nat \<times> world" where
  "sendMessageToBackendPromise stringify tgt domain replyArgs meth parameters args w =
     (let (errors, params) = prepareParameters stringify meth parameters args;
          w1 = fold (\<lambda>message. emit (ConsoleError message)) errors w;
          errorMessage = (if errors = [] then JUndefined else JStr (last errors))
      in if truthy errorMessage then promiseResolve JNull w1
         else
           newPromise
             (\<lambda>p w2.
                let cb = PromiseCallback p meth replyArgs
                in case router (targets w2 tgt) of
                     None \<Rightarrow> (None, dispatchConnectionError cb meth w2)
                   | Some r \<Rightarrow>
                       (None, sendMessage r (sessionId (targets w2 tgt)) domain meth params cb w2))
             w1)"

section \<open>Notions used in the properties\<close>

text \<open>
  What the loop over the proxy connections of \<^verbatim>\<open>_onMessage\<close> does with a message, said
  without the loop: each session that holds a proxy connection, in the order of the
  session map, gives one entry, the message handed to the \<^verbatim>\<open>_onMessage\<close> of the proxy when
  it has one and a protocol error when it has none; the message is consumed when some
  proxy has received it.
\<close>

definition proxyFanout :: "Message \<Rightarrow> Session list \<Rightarrow> effect list" where
  "proxyFanout m ss =
     concat (map (\<lambda>s. case proxyConnection s of
                         None \<Rightarrow> []
                       | Some p \<Rightarrow>
                           [if hasOnMessage p then ProxyMessage p m
                            else ProtocolError
                                   ''Protocol Error: the session has a proxyConnection with no _onMessage''
                                   m]) ss)"

definition consumedByProxy :: "Session list \<Rightarrow> bool" where
  "consumedByProxy ss =
     list_ex (\<lambda>s. case proxyConnection s of None \<Rightarrow> False | Some p \<Rightarrow> hasOnMessage p) ss"

definition afterFanout :: "nat \<Rightarrow> Message \<Rightarrow> world \<Rightarrow> world" where
  "afterFanout this m w =
     w\<lparr>trace := trace w @ proxyFanout m (map snd (sessions (routers w this)))\<rparr>"

text \<open>The router after a response with id \<open>i\<close> has found its callback in \<open>session\<close>.\<close>

definition answered :: "string \<Rightarrow> Session \<Rightarrow> nat \<Rightarrow> SessionRouter \<Rightarrow> SessionRouter" where
  "answered sid session i r =
     r\<lparr>sessions := AList.update sid (session\<lparr>callbacks := AList.delete i (callbacks session)\<rparr>) (sessions r),
       pendingResponsesCount := pendingResponsesCount r - 1,
       pendingLongPollingMessageIds := pendingLongPollingMessageIds r - {i}\<rparr>"

text \<open>The calls of callbacks in a trace, and the runs of scripts.\<close>

fun isInvocation :: "effect \<Rightarrow> bool" where
  "isInvocation (CallbackInvoked cb e r) = True"
| "isInvocation e = False"

fun isScriptRun :: "effect \<Rightarrow> bool" where
  "isScriptRun (ScriptRun l) = True"
| "isScriptRun e = False"

section \<open>Example worlds\<close>

text \<open>
  The world before any router or target exists (what the store holds at addresses that
  are not allocated is irrelevant), in a realm whose prototypes have no properties; and a
  router at address 0 with a registered session.
\<close>

definition initialWorld :: world where
  "initialWorld =
     \<lparr>routers = (\<lambda>a. newRouter (Connection 0 False)), nextRouter = 0,
      targets = (\<lambda>a. \<lparr>needsNodeJSPatching = False, sessionId = [], router = None\<rparr>),
      nextTarget = 0,
      promises = (\<lambda>p. Pending), nextPromise = 0,
      tasks = [], trace = [], suppressRequestErrors = False,
      realm = (\<lambda>v name. JUndefined)\<rparr>"

definition oneSessionWorld :: world where
  "oneSessionWorld = registerSession 0 0 ''s'' None (snd (newSessionRouter (Connection 1 True) initialWorld))"

definition twoPendingWorld :: world where
  "twoPendingWorld =
     sendMessage 0 ''s'' ''DOM'' ''DOM.enable'' JNull (ClientCallback 8)
       (sendMessage 0 ''s'' ''Page'' ''Page.enable'' JNull (ClientCallback 7) oneSessionWorld)"

text \<open>A response to the call \<open>i\<close> of the session \<open>sid\<close>, and routers with proxy connections.\<close>

definition replyTo :: "string \<Rightarrow> nat \<Rightarrow> jsval \<Rightarrow> jsval \<Rightarrow> Message" where
  "replyTo sid i e r =
     \<lparr>msg_sessionId = Some sid, msg_id = Some i, msg_error = e, msg_result = r,
      msg_method = None, msg_params = JUndefined\<rparr>"

definition proxyWorld :: world where
  "proxyWorld =
     registerSession 0 2 ''q'' (Some (Connection 6 False))
       (registerSession 0 1 ''p'' (Some (Connection 5 True)) oneSessionWorld)"

definition deafProxyWorld :: world where
  "deafProxyWorld = registerSession 0 2 ''q'' (Some (Connection 6 False)) oneSessionWorld"

definition proxiedSessionWorld :: world where
  "proxiedSessionWorld = registerSession 0 1 ''p'' (Some (Connection 5 True)) oneSessionWorld"

section \<open>Further notions\<close>

text \<open>The router after \<^verbatim>\<open>sendMessage\<close> of the method \<open>meth\<close> to the session \<open>sid\<close>.\<close>

definition sent :: "string \<Rightarrow> string \<Rightarrow> Callback \<Rightarrow> SessionRouter \<Rightarrow> SessionRouter" where
  "sent sid meth cb r =
     (let i = lastMessageId r;
          r1 = r\<lparr>lastMessageId := i + 1,
                 pendingResponsesCount := pendingResponsesCount r + 1,
                 pendingLongPollingMessageIds :=
                   (if meth \<in> LongPollingMethods then insert i (pendingLongPollingMessageIds r)
                    else pendingLongPollingMessageIds r)\<rparr>
      in case map_of (sessions r) sid of
           None \<Rightarrow> r1
         | Some session \<Rightarrow>
             r1\<lparr>sessions :=
                  AList.update sid
                    (session\<lparr>callbacks := AList.update i \<lparr>callback = cb, methodName = meth\<rparr> (callbacks session)\<rparr>)
                    (sessions r)\<rparr>)"

text \<open>
  The label and the calls of a script, and the scripts that a call hands to the drain
  barrier of the router \<open>this\<close>.
\<close>

fun label :: "script \<Rightarrow> nat" where
  "label (Script l cs) = l"

fun body :: "script \<Rightarrow> command list" where
  "body (Script l cs) = cs"

fun enqueues :: "nat \<Rightarrow> command \<Rightarrow> script list" where
  "enqueues this (RunAfterPendingDispatches a s) = (if a = this then [s] else [])"
| "enqueues this c = []"

text \<open>
  A router with two scripts waiting at the drain barrier, the first of which hands over a
  third when it runs; and one with a script waiting behind two pending calls.
\<close>

definition drainWorld :: world where
  "drainWorld =
     deprecatedRunAfterPendingDispatches 0 (Some (Script 2 []))
       (deprecatedRunAfterPendingDispatches 0
          (Some (Script 1 [RunAfterPendingDispatches 0 (Script 3 [])])) oneSessionWorld)"

definition blockedDrainWorld :: world where
  "blockedDrainWorld = deprecatedRunAfterPendingDispatches 0 (Some (Script 2 [])) twoPendingWorld"

text \<open>
  Traffic on the routers: calls of \<^verbatim>\<open>sendMessage\<close> and incoming messages. An incoming
  message answers the call \<open>i\<close> of the session \<open>sid\<close> of the router \<open>this\<close> when it comes
  to that router with that session id and, as the router reads it, that id. A world
  awaits the answer to such a call when the session still holds the callback under \<open>i\<close>.
\<close>

fun isTraffic :: "command \<Rightarrow> bool" where
  "isTraffic (SendMessage a sid domain meth params cb) = True"
| "isTraffic (OnMessage a m) = True"
| "isTraffic c = False"

fun answers :: "patcher \<Rightarrow> world \<Rightarrow> Session \<Rightarrow> nat \<Rightarrow> string \<Rightarrow> nat \<Rightarrow> command \<Rightarrow> bool" where
  "answers patch w session this sid i (OnMessage a m) =
     (a = this \<and> resolvedSessionId m = sid \<and> msg_id (patched patch w session m) = Some i)"
| "answers patch w session this sid i c = False"

definition awaits :: "world \<Rightarrow> Session \<Rightarrow> nat \<Rightarrow> string \<Rightarrow> nat \<Rightarrow> CallbackWithDebugInfo \<Rightarrow> world \<Rightarrow> bool" where
  "awaits w session this sid i c w' \<longleftrightarrow>
     targets w' = targets w \<and> i < lastMessageId (routers w' this) \<and>
     (\<exists>s. map_of (sessions (routers w' this)) sid = Some s \<and> proxyConnection s = None
          \<and> target s = target session \<and> map_of (callbacks s) i = Some c)"


definition crossTraffic :: "command list" where
  "crossTraffic =
     [SendMessage 0 ''s'' ''DOM'' ''DOM.enable'' JNull (ClientCallback 8),
      OnMessage 0 (replyTo ''s'' 2 JUndefined JNull)]"

text \<open>
  The ids under which the sessions of a router hold callbacks. A router is well formed
  when its long-polling ids are finitely many, these ids and the ids of its callbacks have
  been given out already and no id holds two callbacks; every router made by the
  constructor is and stays so. The requests that a router has lost are those that its
  count of pending responses still counts although they are neither long-polling nor have
  a callback. One world keeps the routers of another when every well-formed router of the
  second is well formed in the first and has lost no less there.
\<close>

definition idsOf :: "(string \<times> Session) list \<Rightarrow> nat list" where
  "idsOf al = concat (map (\<lambda>(sid, s). map fst (callbacks s)) al)"

definition storedIds :: "SessionRouter \<Rightarrow> nat list" where
  "storedIds r = idsOf (sessions r)"

definition wellFormed :: "SessionRouter \<Rightarrow> bool" where
  "wellFormed r \<longleftrightarrow>
     finite (pendingLongPollingMessageIds r)
   \<and> (\<forall>i \<in> pendingLongPollingMessageIds r. i < lastMessageId r)
   \<and> (\<forall>i \<in> set (storedIds r). i < lastMessageId r)
   \<and> distinct (storedIds r)"

definition lost :: "SessionRouter \<Rightarrow> int" where
  "lost r =
     pendingResponsesCount r - int (card (pendingLongPollingMessageIds r))
       - int (card (set (storedIds r) - pendingLongPollingMessageIds r))"

definition keeps :: "world \<Rightarrow> world \<Rightarrow> bool" where
  "keeps w w' \<longleftrightarrow>
     (\<forall>a. wellFormed (routers w a) \<longrightarrow>
          wellFormed (routers w' a) \<and> lost (routers w a) \<le> lost (routers w' a))"

text \<open>What a client may do later: hand a script to the drain barrier and let the event loop turn.\<close>

definition laterOps :: "op list" where
  "laterOps = [Call (RunAfterPendingDispatches 0 (Script 1 [])), Tick, Tick, Tick]"

text \<open>
  The validation of the arguments of a generated command, said without the loop and the
  messages: the declared parameters are taken in order; when no argument remains, an
  optional parameter is skipped and a required one is a failure; an optional parameter whose
  argument is undefined is skipped and that argument is consumed; any other argument is
  consumed and must have the declared type; arguments left over at the end are a failure.
\<close>

datatype failure = MissingArgument | WrongType string | ExtraArguments nat

fun validation :: "CommandParameter list \<Rightarrow> jsval list \<Rightarrow> failure option" where
  "validation [] args = (if args = [] then None else Some (ExtraArguments (length args)))"
| "validation (p # ps) [] = (if optional p then validation ps [] else Some MissingArgument)"
| "validation (p # ps) (a # as) =
     (if optional p \<and> a = JUndefined then validation ps as
      else if typeof a = type p then validation ps as
      else Some (WrongType (name p)))"

text \<open>
  The validation as the claim C5 states it, for a given reading \<open>absent\<close> of "the next
  argument is absent": an optional parameter whose argument is absent is skipped and
  nothing is consumed, every other parameter consumes an argument, which must have the
  declared type.
\<close>

fun statedValidation :: "(jsval list \<Rightarrow> bool) \<Rightarrow> CommandParameter list \<Rightarrow> jsval list \<Rightarrow> bool" where
  "statedValidation absent [] args = (args = [])"
| "statedValidation absent (p # ps) args =
     (if args = [] \<and> \<not> optional p then False
      else if optional p \<and> absent args then statedValidation absent ps args
      else (case args of
              [] \<Rightarrow> False
            | a # as \<Rightarrow> typeof a = type p \<and> statedValidation absent ps as))"

text \<open>Two parameter lists.\<close>

definition twoRequired :: "CommandParameter list" where
  "twoRequired =
     [\<lparr>name = ''nodeId'', type = ''number'', optional = False\<rparr>,
      \<lparr>name = ''selector'', type = ''string'', optional = False\<rparr>]"

definition optionalDepth :: "CommandParameter list" where
  "optionalDepth = [\<lparr>name = ''depth'', type = ''number'', optional = True\<rparr>]"

text \<open>
  The value to which the callback of a generated command resolves its promise:
  \<^verbatim>\<open>error ? null : (result && args.length ? result[args[0]] : undefined)\<close>.
\<close>

definition resolvedValue ::
    "(jsval \<Rightarrow> string \<Rightarrow> jsval) \<Rightarrow> string list \<Rightarrow> jsval \<Rightarrow> jsval \<Rightarrow> jsval" where
  "resolvedValue inherited replyArgs error result =
     (if truthy error then JNull
      else if truthy result \<and> replyArgs \<noteq> [] then getProperty inherited result (hd replyArgs)
      else JUndefined)"






text \<open>
  One world settles another when each promise is in it what it was, or was pending and
  is now fulfilled.
\<close>

definition settles :: "world \<Rightarrow> world \<Rightarrow> bool" where
  "settles w w' \<longleftrightarrow>
     (\<forall>p. promises w' p = promises w p
          \<or> (promises w p = Pending \<and> (\<exists>v. promises w' p = Resolved v)))"

text \<open>
  The callbacks that a script, a call, a macrotask, a router and the world hold: a
  callback can only be called while it is held somewhere, or after a later call has handed
  it in. \<open>invoked\<close> is the set of the callbacks that a trace has called and \<open>resolvers p\<close>
  the callbacks that resolve the promise \<open>p\<close>. A world \<open>w'\<close> is within \<open>X\<close> of a world
  \<open>w\<close> when it holds no callbacks but those that \<open>w\<close> holds and those of \<open>X\<close>, has called
  no others, and has settled no promise but those with a resolver among them.
\<close>

primrec scriptCallbacks :: "script \<Rightarrow> Callback set"
    and commandCallbacks :: "command \<Rightarrow> Callback set" where
  "scriptCallbacks (Script l cs) = \<Union> (set (map commandCallbacks cs))"
| "commandCallbacks (RegisterSession this tgt sid proxy) = {}"
| "commandCallbacks (UnregisterSession this sid) = {}"
| "commandCallbacks (SendMessage this sid domain meth params cb) = {cb}"
| "commandCallbacks (OnMessage this message) = {}"
| "commandCallbacks (RunAfterPendingDispatches this s) = scriptCallbacks s"

fun taskCallbacks :: "task \<Rightarrow> Callback set" where
  "taskCallbacks (CallbackTimer cb error) = {cb}"
| "taskCallbacks (DrainTimer this) = {}"

fun opCallbacks :: "op \<Rightarrow> Callback set" where
  "opCallbacks (Call c) = commandCallbacks c"
| "opCallbacks Tick = {}"

definition routerCallbacks :: "SessionRouter \<Rightarrow> Callback set" where
  "routerCallbacks r =
     (\<Union>s \<in> set (sessions r). callback ` snd ` set (callbacks (snd s)))
     \<union> (\<Union>s \<in> set (pendingScripts r). scriptCallbacks s)"

definition worldCallbacks :: "world \<Rightarrow> Callback set" where
  "worldCallbacks w =
     (\<Union>a. routerCallbacks (routers w a)) \<union> (\<Union>t \<in> set (tasks w). taskCallbacks t)"

definition invoked :: "effect list \<Rightarrow> Callback set" where
  "invoked tr = {cb. \<exists>e r. CallbackInvoked cb e r \<in> set tr}"

definition resolvers :: "nat \<Rightarrow> Callback set" where
  "resolvers p = {cb. \<exists>meth args. cb = PromiseCallback p meth args}"

definition within :: "Callback set \<Rightarrow> world \<Rightarrow> world \<Rightarrow> bool" where
  "within X w w' \<longleftrightarrow>
     worldCallbacks w' \<subseteq> worldCallbacks w \<union> X
   \<and> invoked (trace w') \<subseteq> invoked (trace w) \<union> worldCallbacks w \<union> X
   \<and> (\<forall>p. promises w' p \<noteq> promises w p \<longrightarrow>
          (\<exists>cb \<in> worldCallbacks w \<union> X. cb \<in> resolvers p))"

section \<open>Basic facts\<close>

lemma emit_simps [simp]:
  "routers (emit e w) = routers w"
  "tasks (emit e w) = tasks w"
  "trace (emit e w) = trace w @ [e]"
  "targets (emit e w) = targets w"
  "promises (emit e w) = promises w"
  "suppressRequestErrors (emit e w) = suppressRequestErrors w"
  "realm (emit e w) = realm w"
  by (simp_all add: emit_def)

lemma setTimeout_simps [simp]:
  "routers (setTimeout t w) = routers w"
  "tasks (setTimeout t w) = tasks w @ [t]"
  "trace (setTimeout t w) = trace w"
  "targets (setTimeout t w) = targets w"
  "promises (setTimeout t w) = promises w"
  "suppressRequestErrors (setTimeout t w) = suppressRequestErrors w"
  "realm (setTimeout t w) = realm w"
  by (simp_all add: setTimeout_def)

lemma updateRouter_simps [simp]:
  "routers (updateRouter a f w) = (routers w)(a := f (routers w a))"
  "tasks (updateRouter a f w) = tasks w"
  "trace (updateRouter a f w) = trace w"
  "targets (updateRouter a f w) = targets w"
  "promises (updateRouter a f w) = promises w"
  "suppressRequestErrors (updateRouter a f w) = suppressRequestErrors w"
  "realm (updateRouter a f w) = realm w"
  by (simp_all add: updateRouter_def)

lemma resolve_simps [simp]:
  "routers (resolve p v w) = routers w"
  "tasks (resolve p v w) = tasks w"
  "trace (resolve p v w) = trace w"
  "targets (resolve p v w) = targets w"
  "suppressRequestErrors (resolve p v w) = suppressRequestErrors w"
  "realm (resolve p v w) = realm w"
  by (simp_all add: resolve_def)

lemma invokeCallback_frame [simp]:
  "routers (invokeCallback cb e r w) = routers w"
  "tasks (invokeCallback cb e r w) = tasks w"
  "targets (invokeCallback cb e r w) = targets w"
  "suppressRequestErrors (invokeCallback cb e r w) = suppressRequestErrors w"
  "realm (invokeCallback cb e r w) = realm w"
  by (cases cb; simp add: invokeCallback_def)+

lemma oneSessionWorld_simps:
  "sessions (routers oneSessionWorld 0) = [(''s'', \<lparr>target = 0, callbacks = [], proxyConnection = None\<rparr>)]"
  "lastMessageId (routers oneSessionWorld 0) = 1"
  "pendingResponsesCount (routers oneSessionWorld 0) = 0"
  "pendingLongPollingMessageIds (routers oneSessionWorld 0) = {}"
  "pendingScripts (routers oneSessionWorld 0) = []"
  "connection (routers oneSessionWorld 0) = Connection 1 True"
  "tasks oneSessionWorld = []"
  "trace oneSessionWorld = []"
  "needsNodeJSPatching (targets oneSessionWorld a) = False"
  "suppressRequestErrors oneSessionWorld = False"
  by (simp_all add: oneSessionWorld_def registerSession_def newSessionRouter_def initialWorld_def
        newRouter_def)

lemma twoPendingWorld_simps:
  "sessions (routers twoPendingWorld 0) =
     [(''s'', \<lparr>target = 0,
              callbacks = [(1, \<lparr>callback = ClientCallback 7, methodName = ''Page.enable''\<rparr>),
                           (2, \<lparr>callback = ClientCallback 8, methodName = ''DOM.enable''\<rparr>)],
              proxyConnection = None\<rparr>)]"
  "lastMessageId (routers twoPendingWorld 0) = 3"
  "pendingResponsesCount (routers twoPendingWorld 0) = 2"
  "pendingLongPollingMessageIds (routers twoPendingWorld 0) = {}"
  "pendingScripts (routers twoPendingWorld 0) = []"
  "tasks twoPendingWorld = []"
  "needsNodeJSPatching (targets twoPendingWorld a) = False"
  by (simp_all add: twoPendingWorld_def sendMessage_def oneSessionWorld_simps Let_def
        LongPollingMethods_def)

section \<open>Incoming messages, case by case\<close>

lemma sendToProxyConnections_eq:
  "sendToProxyConnections m ss b w = (b \<or> consumedByProxy ss, w\<lparr>trace := trace w @ proxyFanout m ss\<rparr>)"
  by (induction ss arbitrary: b w)
     (auto simp: proxyFanout_def consumedByProxy_def reportProtocolError_def emit_def split: option.splits)

lemma afterFanout_simps [simp]:
  "routers (afterFanout this m w) = routers w"
  "tasks (afterFanout this m w) = tasks w"
  "targets (afterFanout this m w) = targets w"
  "promises (afterFanout this m w) = promises w"
  "suppressRequestErrors (afterFanout this m w) = suppressRequestErrors w"
  "realm (afterFanout this m w) = realm w"
  "trace (afterFanout this m w) = trace w @ proxyFanout m (map snd (sessions (routers w this)))"
  by (simp_all add: afterFanout_def)

lemma patched_afterFanout [simp]: "patched patch (afterFanout this m w) = patched patch w"
  by (simp add: patched_def fun_eq_iff)

lemma onMessage_unknown_session:
  "map_of (sessions (routers w this)) (resolvedSessionId m) = None \<Longrightarrow>
   onMessage patch this m w =
     (if consumedByProxy (map snd (sessions (routers w this))) then afterFanout this m w
      else reportProtocolError ''Protocol Error: the message with wrong session id'' m (afterFanout this m w))"
  by (simp add: onMessage_def sendToProxyConnections_eq afterFanout_def)

lemma onMessage_proxy_session:
  "map_of (sessions (routers w this)) (resolvedSessionId m) = Some session \<Longrightarrow>
   proxyConnection session \<noteq> None \<Longrightarrow>
   onMessage patch this m w = afterFanout this m w"
  by (simp add: onMessage_def sendToProxyConnections_eq afterFanout_def)

lemma onMessage_response:
  "map_of (sessions (routers w this)) (resolvedSessionId m) = Some session \<Longrightarrow>
   proxyConnection session = None \<Longrightarrow>
   msg_id (patched patch w session m) = Some i \<Longrightarrow>
   onMessage patch this m w =
     onResponse this (resolvedSessionId m) session (patched patch w session m) i
       (consumedByProxy (map snd (sessions (routers w this)))) (afterFanout this m w)"
  by (simp add: onMessage_def sendToProxyConnections_eq afterFanout_def patched_def)

lemma onMessage_event:
  "map_of (sessions (routers w this)) (resolvedSessionId m) = Some session \<Longrightarrow>
   proxyConnection session = None \<Longrightarrow>
   msg_id (patched patch w session m) = None \<Longrightarrow>
   onMessage patch this m w =
     (case msg_method (patched patch w session m) of
        None \<Rightarrow> reportProtocolError ''Protocol Error: the message without method''
                  (patched patch w session m) (afterFanout this m w)
      | Some x \<Rightarrow> emit (EventDispatched (target session) (patched patch w session m)) (afterFanout this m w))"
  by (simp add: onMessage_def sendToProxyConnections_eq patched_def afterFanout_def split: option.split)

lemma onResponse_unknown_id:
  assumes "map_of (callbacks session) i = None"
  shows "onResponse this sid session m' i quiet w =
     (let w2 = updateRouter this (\<lambda>r. r\<lparr>sessions := AList.update sid session (sessions r)\<rparr>) w
      in if quiet then w2 else reportProtocolError ''Protocol Error: the message with wrong id'' m' w2)"
proof -
  from assms have "i \<notin> fst ` set (callbacks session)" by (simp add: map_of_eq_None_iff)
  then have "AList.delete i (callbacks session) = callbacks session" by simp
  with assms show ?thesis by (simp add: onResponse_def Let_def)
qed

lemma onResponse_known_id:
  assumes "map_of (callbacks session) i = Some c"
  shows "routers (onResponse this sid session m' i quiet w) =
           (routers w)(this := answered sid session i (routers w this))"
    and "targets (onResponse this sid session m' i quiet w) = targets w"
    and "suppressRequestErrors (onResponse this sid session m' i quiet w) = suppressRequestErrors w"
    and "filter isInvocation (trace (onResponse this sid session m' i quiet w)) =
           filter isInvocation (trace w) @ [CallbackInvoked (callback c) (orNull (msg_error m')) (orNull (msg_result m'))]"
    and "filter isScriptRun (trace (onResponse this sid session m' i quiet w)) = filter isScriptRun (trace w)"
  using assms
  by (cases "callback c"; simp add: onResponse_def Let_def deprecatedRunAfterPendingDispatches_def invokeCallback_def answered_def)+


lemma onMessage_unknown_id:
  assumes "map_of (sessions (routers w this)) (resolvedSessionId m) = Some session"
      and "proxyConnection session = None"
      and "msg_id (patched patch w session m) = Some i"
      and "map_of (callbacks session) i = None"
  shows "onMessage patch this m w =
     (if consumedByProxy (map snd (sessions (routers w this))) then afterFanout this m w
      else reportProtocolError ''Protocol Error: the message with wrong id''
             (patched patch w session m) (afterFanout this m w))"
proof -
  have "AList.update (resolvedSessionId m) session (sessions (routers w this)) = sessions (routers w this)"
    using assms(1) by (rule update_triv)
  then have "updateRouter this (\<lambda>r. r\<lparr>sessions := AList.update (resolvedSessionId m) session (sessions r)\<rparr>)
               (afterFanout this m w) = afterFanout this m w"
    by (simp add: updateRouter_def)
  then show ?thesis
    using assms by (simp add: onMessage_response onResponse_unknown_id Let_def)
qed

lemma onMessage_cases [case_names unknown_session proxy_session unknown_id response event]:
  assumes "map_of (sessions (routers w this)) (resolvedSessionId m) = None \<Longrightarrow> P"
      and "\<And>session. map_of (sessions (routers w this)) (resolvedSessionId m) = Some session \<Longrightarrow>
             proxyConnection session \<noteq> None \<Longrightarrow> P"
      and "\<And>session i. map_of (sessions (routers w this)) (resolvedSessionId m) = Some session \<Longrightarrow>
             proxyConnection session = None \<Longrightarrow> msg_id (patched patch w session m) = Some i \<Longrightarrow>
             map_of (callbacks session) i = None \<Longrightarrow> P"
      and "\<And>session i c. map_of (sessions (routers w this)) (resolvedSessionId m) = Some session \<Longrightarrow>
             proxyConnection session = None \<Longrightarrow> msg_id (patched patch w session m) = Some i \<Longrightarrow>
             map_of (callbacks session) i = Some c \<Longrightarrow> P"
      and "\<And>session. map_of (sessions (routers w this)) (resolvedSessionId m) = Some session \<Longrightarrow>
             proxyConnection session = None \<Longrightarrow> msg_id (patched patch w session m) = None \<Longrightarrow> P"
  shows P
proof (cases "map_of (sessions (routers w this)) (resolvedSessionId m)")
  case None
  then show ?thesis by (rule assms(1))
next
  case (Some session)
  show ?thesis
  proof (cases "proxyConnection session")
    case (Some p)
    with \<open>map_of (sessions (routers w this)) (resolvedSessionId m) = Some session\<close>
    show ?thesis by (intro assms(2)) auto
  next
    case None
    note np = this
    show ?thesis
    proof (cases "msg_id (patched patch w session m)")
      case None
      with Some np show ?thesis by (intro assms(5))
    next
      case (Some i)
      note id = this
      show ?thesis
      proof (cases "map_of (callbacks session) i")
        case None
        with \<open>map_of (sessions (routers w this)) (resolvedSessionId m) = Some session\<close> np id
        show ?thesis by (intro assms(3))
      next
        case (Some c)
        with \<open>map_of (sessions (routers w this)) (resolvedSessionId m) = Some session\<close> np id
        show ?thesis by (intro assms(4))
      qed
    qed
  qed
qed

lemma onMessage_routers:
  "routers (onMessage patch this m w) = routers w \<or>
   (\<exists>session i c. map_of (sessions (routers w this)) (resolvedSessionId m) = Some session
       \<and> proxyConnection session = None
       \<and> msg_id (patched patch w session m) = Some i
       \<and> map_of (callbacks session) i = Some c
       \<and> routers (onMessage patch this m w) =
            (routers w)(this := answered (resolvedSessionId m) session i (routers w this)))"
proof (cases rule: onMessage_cases[of w this m _ patch])
  case unknown_session
  then show ?thesis by (simp add: onMessage_unknown_session reportProtocolError_def)
next
  case (proxy_session session)
  then show ?thesis by (simp add: onMessage_proxy_session)
next
  case (unknown_id session i)
  then show ?thesis by (simp add: onMessage_unknown_id reportProtocolError_def)
next
  case (response session i c)
  then show ?thesis by (simp add: onMessage_response onResponse_known_id)
next
  case (event session)
  then show ?thesis by (simp add: onMessage_event reportProtocolError_def split: option.split)
qed

lemma onMessage_targets [simp]: "targets (onMessage patch this m w) = targets w"
proof (cases rule: onMessage_cases[of w this m _ patch])
  case unknown_session
  then show ?thesis by (simp add: onMessage_unknown_session reportProtocolError_def)
next
  case (proxy_session session)
  then show ?thesis by (simp add: onMessage_proxy_session)
next
  case (unknown_id session i)
  then show ?thesis by (simp add: onMessage_unknown_id reportProtocolError_def)
next
  case (response session i c)
  then show ?thesis by (simp add: onMessage_response onResponse_known_id)
next
  case (event session)
  then show ?thesis by (simp add: onMessage_event reportProtocolError_def split: option.split)
qed

lemma onMessage_no_ScriptRun [simp]:
  "filter isScriptRun (trace (onMessage patch this m w)) = filter isScriptRun (trace w)"
proof -
  have pf: "filter isScriptRun (proxyFanout m ss) = []" for ss
    by (induction ss) (auto simp: proxyFanout_def split: option.split)
  show ?thesis
  proof (cases rule: onMessage_cases[of w this m _ patch])
    case unknown_session
    then show ?thesis by (simp add: onMessage_unknown_session reportProtocolError_def pf)
  next
    case (proxy_session session)
    then show ?thesis by (simp add: onMessage_proxy_session pf)
  next
    case (unknown_id session i)
    then show ?thesis by (simp add: onMessage_unknown_id reportProtocolError_def pf)
  next
    case (response session i c)
    then show ?thesis by (simp add: onMessage_response onResponse_known_id pf)
  next
    case (event session)
    then show ?thesis by (simp add: onMessage_event reportProtocolError_def pf split: option.split)
  qed
qed


section \<open>Unregistering a session\<close>

lemma invokeCallback_closed_trace:
  "trace (invokeCallback cb (connectionError pre m) r w) =
     trace w @ [CallbackInvoked cb (connectionError pre m) r]"
  by (cases cb; simp add: invokeCallback_def connectionError_def getProperty_def)

lemma fold_dispatchUnregisterSessionError:
  "fold dispatchUnregisterSessionError cs w =
     w\<lparr>tasks := tasks w @
         map (\<lambda>c. CallbackTimer (callback c)
                (connectionError ''Session is unregistering, can't dispatch pending call to '' (methodName c))) cs\<rparr>"
  by (induction cs arbitrary: w) (simp_all add: dispatchUnregisterSessionError_def setTimeout_def)

lemma ticks_deliver:
  "tasks w = map (\<lambda>c. CallbackTimer (callback c) (connectionError pre (methodName c))) cs @ rest \<Longrightarrow>
   trace (run patch (replicate (length cs) Tick) w) =
     trace w @ map (\<lambda>c. CallbackInvoked (callback c) (connectionError pre (methodName c)) JNull) cs
   \<and> tasks (run patch (replicate (length cs) Tick) w) = rest"
proof (induction cs arbitrary: w)
  case Nil
  then show ?case by (simp add: run_def)
next
  case (Cons c cs)
  let ?w1 = "tick patch w"
  have t1: "tasks ?w1 = map (\<lambda>c. CallbackTimer (callback c) (connectionError pre (methodName c))) cs @ rest"
    using Cons.prems by (simp add: tick_def)
  have tr1: "trace ?w1 = trace w @ [CallbackInvoked (callback c) (connectionError pre (methodName c)) JNull]"
    using Cons.prems by (simp add: tick_def invokeCallback_closed_trace)
  from Cons.IH[OF t1] tr1 show ?case by (simp add: run_def)
qed

text \<open>
  C2. \<^verbatim>\<open>unregisterSession\<close> leaves the world as it is when the router has no session of
  that id. Otherwise the session record is deleted from the router (and with it its pending
  callbacks; the other sessions stay), nothing is called and no promise is settled during
  the call, and the macrotask queue receives, behind what it holds, one timer for each
  pending call of the session, in the order of the calls: it will call the callback of
  that call with an error \<^verbatim>\<open>{message, code: ConnectionClosedErrorCode, data: null}\<close> whose
  message ends in the method of that call, and with a null result. When the queue was
  empty, as many turns of the event loop as there were pending calls deliver exactly
  these errors.
\<close>

theorem unregisterSession_force_fails:
  "(map_of (sessions (routers w this)) sid = None \<longrightarrow> unregisterSession this sid w = w) \<and>
   (\<forall>session. map_of (sessions (routers w this)) sid = Some session \<longrightarrow>
      (let w' = unregisterSession this sid w;
           errors =
             map (\<lambda>c. (callback c,
                        JObj [(''message'',
                               JStr (''Session is unregistering, can't dispatch pending call to ''
                                       @ methodName c)),
                              (''code'', JNum ConnectionClosedErrorCode),
                              (''data'', JNull)]))
               (map snd (callbacks session))
       in map_of (sessions (routers w' this)) = (map_of (sessions (routers w this)))(sid := None)
        \<and> trace w' = trace w
        \<and> promises w' = promises w
        \<and> tasks w' = tasks w @ map (\<lambda>(cb, e). CallbackTimer cb e) errors
        \<and> (tasks w = [] \<longrightarrow>
             trace (run patch (replicate (length (callbacks session)) Tick) w') =
               trace w @ map (\<lambda>(cb, e). CallbackInvoked cb e JNull) errors)))"
proof (intro conjI allI impI)
  assume "map_of (sessions (routers w this)) sid = None"
  then show "unregisterSession this sid w = w"
    by (simp add: unregisterSession_def)
next
  fix session
  assume s: "map_of (sessions (routers w this)) sid = Some session"
  let ?cs = "map snd (callbacks session)"
  let ?w' = "unregisterSession this sid w"
  let ?pre = "''Session is unregistering, can't dispatch pending call to ''"
  have tk: "tasks ?w' =
      tasks w @ map (\<lambda>c. CallbackTimer (callback c) (connectionError ?pre (methodName c))) ?cs"
    using s by (simp add: unregisterSession_def fold_dispatchUnregisterSessionError)
  have tr: "trace ?w' = trace w"
    using s by (simp add: unregisterSession_def fold_dispatchUnregisterSessionError)
  have pr: "promises ?w' = promises w"
    using s by (simp add: unregisterSession_def fold_dispatchUnregisterSessionError)
  have ss: "map_of (sessions (routers ?w' this)) = (map_of (sessions (routers w this)))(sid := None)"
    using s by (simp add: unregisterSession_def fold_dispatchUnregisterSessionError delete_conv')
  have dl: "tasks w = [] \<longrightarrow>
      trace (run patch (replicate (length (callbacks session)) Tick) ?w') =
        trace w @ map (\<lambda>c. CallbackInvoked (callback c) (connectionError ?pre (methodName c)) JNull) ?cs"
  proof
    assume "tasks w = []"
    with tk have "tasks ?w' =
        map (\<lambda>c. CallbackTimer (callback c) (connectionError ?pre (methodName c))) ?cs @ []"
      by simp
    from ticks_deliver[OF this, of patch] tr
    show "trace (run patch (replicate (length (callbacks session)) Tick) ?w') =
        trace w @ map (\<lambda>c. CallbackInvoked (callback c) (connectionError ?pre (methodName c)) JNull) ?cs"
      by simp
  qed
  show "let w' = unregisterSession this sid w;
           errors =
             map (\<lambda>c. (callback c,
                        JObj [(''message'',
                               JStr (''Session is unregistering, can't dispatch pending call to ''
                                       @ methodName c)),
                              (''code'', JNum ConnectionClosedErrorCode),
                              (''data'', JNull)]))
               (map snd (callbacks session))
       in map_of (sessions (routers w' this)) = (map_of (sessions (routers w this)))(sid := None)
        \<and> trace w' = trace w
        \<and> promises w' = promises w
        \<and> tasks w' = tasks w @ map (\<lambda>(cb, e). CallbackTimer cb e) errors
        \<and> (tasks w = [] \<longrightarrow>
             trace (run patch (replicate (length (callbacks session)) Tick) w') =
               trace w @ map (\<lambda>(cb, e). CallbackInvoked cb e JNull) errors)"
    using tk tr pr ss dl by (simp add: Let_def connectionError_def comp_def)
qed

theorem unregisterSession_force_fails_witness:
  "map_of (sessions (routers twoPendingWorld 0)) ''s'' \<noteq> None \<and>
   map_of (sessions (routers twoPendingWorld 0)) ''t'' = None \<and>
   tasks twoPendingWorld = [] \<and>
   unregisterSession 0 ''t'' twoPendingWorld = twoPendingWorld \<and>
   sessions (routers (unregisterSession 0 ''s'' twoPendingWorld) 0) = [] \<and>
   trace (run id [Tick, Tick] (unregisterSession 0 ''s'' twoPendingWorld)) =
     trace twoPendingWorld @
       [CallbackInvoked (ClientCallback 7)
          (JObj [(''message'',
                  JStr ''Session is unregistering, can't dispatch pending call to Page.enable''),
                 (''code'', JNum (- 32001)), (''data'', JNull)]) JNull,
        CallbackInvoked (ClientCallback 8)
          (JObj [(''message'',
                  JStr ''Session is unregistering, can't dispatch pending call to DOM.enable''),
                 (''code'', JNum (- 32001)), (''data'', JNull)]) JNull]"
  using unregisterSession_force_fails[of twoPendingWorld 0 "''s''" id]
        unregisterSession_force_fails[of twoPendingWorld 0 "''t''" id]
  by (simp add: twoPendingWorld_simps Let_def ConnectionClosedErrorCode_def unregisterSession_def)

section \<open>Facts about incoming messages\<close>

lemma invokeCallback_trace:
  "trace (invokeCallback cb e r w) = trace w @ [CallbackInvoked cb e r] \<or>
   (\<exists>mth. trace (invokeCallback cb e r w) = trace w @ [CallbackInvoked cb e r, RequestFailed mth e])"
  by (cases cb) (simp_all add: invokeCallback_def)

lemma onResponse_known_id_trace:
  assumes "map_of (callbacks session) i = Some c"
  shows "trace (onResponse this sid session m' i quiet w) =
           trace (invokeCallback (callback c) (orNull (msg_error m')) (orNull (msg_result m'))
                    (updateRouter this
                       (\<lambda>r. r\<lparr>sessions := AList.update sid (session\<lparr>callbacks := AList.delete i (callbacks session)\<rparr>) (sessions r)\<rparr>) w))"
  using assms
  by (simp add: onResponse_def Let_def deprecatedRunAfterPendingDispatches_def)

lemma onMessage_trace:
  "\<exists>rest. trace (onMessage patch this m w) =
       trace w @ proxyFanout m (map snd (sessions (routers w this))) @ rest
     \<and> (consumedByProxy (map snd (sessions (routers w this))) \<longrightarrow>
          (\<forall>x. ProtocolError ''Protocol Error: the message with wrong session id'' x \<notin> set rest
             \<and> ProtocolError ''Protocol Error: the message with wrong id'' x \<notin> set rest))
     \<and> (\<not> consumedByProxy (map snd (sessions (routers w this))) \<longrightarrow>
          (map_of (sessions (routers w this)) (resolvedSessionId m) = None \<longrightarrow>
             rest = [ProtocolError ''Protocol Error: the message with wrong session id'' m])
        \<and> (\<forall>session i. map_of (sessions (routers w this)) (resolvedSessionId m) = Some session
               \<and> proxyConnection session = None
               \<and> msg_id (patched patch w session m) = Some i
               \<and> map_of (callbacks session) i = None \<longrightarrow>
             rest = [ProtocolError ''Protocol Error: the message with wrong id''
                       (patched patch w session m)]))"
proof (cases rule: onMessage_cases[of w this m _ patch])
  case unknown_session
  then show ?thesis
    by (cases "consumedByProxy (map snd (sessions (routers w this)))")
       (simp_all add: onMessage_unknown_session reportProtocolError_def)
next
  case (proxy_session session)
  then show ?thesis by (auto simp add: onMessage_proxy_session)
next
  case (unknown_id session i)
  then show ?thesis
    by (cases "consumedByProxy (map snd (sessions (routers w this)))")
       (simp_all add: onMessage_unknown_id reportProtocolError_def)
next
  case (response session i c)
  let ?w2 = "updateRouter this
               (\<lambda>r. r\<lparr>sessions := AList.update (resolvedSessionId m)
                    (session\<lparr>callbacks := AList.delete i (callbacks session)\<rparr>) (sessions r)\<rparr>)
               (afterFanout this m w)"
  let ?m' = "patched patch w session m"
  have tr: "trace (onMessage patch this m w) =
      trace (invokeCallback (callback c) (orNull (msg_error ?m')) (orNull (msg_result ?m')) ?w2)"
    using response by (simp add: onMessage_response onResponse_known_id_trace)
  from invokeCallback_trace[of "callback c" "orNull (msg_error ?m')" "orNull (msg_result ?m')" ?w2]
  show ?thesis
  proof
    assume "trace (invokeCallback (callback c) (orNull (msg_error ?m')) (orNull (msg_result ?m')) ?w2) =
       trace ?w2 @ [CallbackInvoked (callback c) (orNull (msg_error ?m')) (orNull (msg_result ?m'))]"
    with tr response show ?thesis by simp
  next
    assume "\<exists>mth. trace (invokeCallback (callback c) (orNull (msg_error ?m')) (orNull (msg_result ?m')) ?w2) =
       trace ?w2 @ [CallbackInvoked (callback c) (orNull (msg_error ?m')) (orNull (msg_result ?m')),
                    RequestFailed mth (orNull (msg_error ?m'))]"
    with tr response show ?thesis by auto
  qed
next
  case (event session)
  then show ?thesis
    by (cases "msg_method (patched patch w session m)")
       (simp_all add: onMessage_event reportProtocolError_def)
qed


lemma proxyFanout_no_invocation [simp]: "filter isInvocation (proxyFanout m ss) = []"
  by (induction ss) (auto simp: proxyFanout_def split: option.split)

lemma onMessage_invocations:
  "filter isInvocation (trace (onMessage patch this m w)) = filter isInvocation (trace w) \<or>
   (\<exists>session i c. map_of (sessions (routers w this)) (resolvedSessionId m) = Some session
       \<and> proxyConnection session = None
       \<and> msg_id (patched patch w session m) = Some i
       \<and> map_of (callbacks session) i = Some c
       \<and> filter isInvocation (trace (onMessage patch this m w)) =
            filter isInvocation (trace w) @
              [CallbackInvoked (callback c) (orNull (msg_error (patched patch w session m)))
                 (orNull (msg_result (patched patch w session m)))])"
proof (cases rule: onMessage_cases[of w this m _ patch])
  case unknown_session
  then show ?thesis by (simp add: onMessage_unknown_session reportProtocolError_def)
next
  case (proxy_session session)
  then show ?thesis by (simp add: onMessage_proxy_session)
next
  case (unknown_id session i)
  then show ?thesis by (simp add: onMessage_unknown_id reportProtocolError_def)
next
  case (response session i c)
  then show ?thesis by (simp add: onMessage_response onResponse_known_id)
next
  case (event session)
  then show ?thesis by (simp add: onMessage_event reportProtocolError_def split: option.split)
qed

lemma replyTo_simps [simp]:
  "resolvedSessionId (replyTo sid i e r) = sid"
  "msg_id (replyTo sid i e r) = Some i"
  "msg_error (replyTo sid i e r) = e"
  "msg_result (replyTo sid i e r) = r"
  by (simp_all add: replyTo_def resolvedSessionId_def)

lemma proxyWorld_simps:
  "sessions (routers proxyWorld 0) =
     [(''s'', \<lparr>target = 0, callbacks = [], proxyConnection = None\<rparr>),
      (''p'', \<lparr>target = 1, callbacks = [], proxyConnection = Some (Connection 5 True)\<rparr>),
      (''q'', \<lparr>target = 2, callbacks = [], proxyConnection = Some (Connection 6 False)\<rparr>)]"
  "trace proxyWorld =
     [ConsoleError ''Multiple simultaneous proxy connections are currently unsupported'']"
  "needsNodeJSPatching (targets proxyWorld a) = False"
  by (simp_all add: proxyWorld_def registerSession_def oneSessionWorld_simps Let_def)

lemma proxiedSessionWorld_simps:
  "sessions (routers proxiedSessionWorld 0) =
     [(''s'', \<lparr>target = 0, callbacks = [], proxyConnection = None\<rparr>),
      (''p'', \<lparr>target = 1, callbacks = [], proxyConnection = Some (Connection 5 True)\<rparr>)]"
  "lastMessageId (routers proxiedSessionWorld 0) = 1"
  "pendingResponsesCount (routers proxiedSessionWorld 0) = 0"
  "pendingLongPollingMessageIds (routers proxiedSessionWorld 0) = {}"
  "tasks proxiedSessionWorld = []"
  "trace proxiedSessionWorld = []"
  "needsNodeJSPatching (targets proxiedSessionWorld a) = False"
  by (simp_all add: proxiedSessionWorld_def registerSession_def oneSessionWorld_simps Let_def)

lemma deafProxyWorld_simps:
  "sessions (routers deafProxyWorld 0) =
     [(''s'', \<lparr>target = 0, callbacks = [], proxyConnection = None\<rparr>),
      (''q'', \<lparr>target = 2, callbacks = [], proxyConnection = Some (Connection 6 False)\<rparr>)]"
  "trace deafProxyWorld = []"
  "needsNodeJSPatching (targets deafProxyWorld a) = False"
  by (simp_all add: deafProxyWorld_def registerSession_def oneSessionWorld_simps Let_def)

section \<open>Proxy connections\<close>

text \<open>
  C6 (amended). For every incoming message the router first goes through its sessions in
  the order of the session map: each session whose proxy connection has an \<^verbatim>\<open>_onMessage\<close>
  handler receives the message as it came, each session whose proxy connection has none
  gives a protocol error instead and receives nothing. What the router does after that
  (\<open>rest\<close>) contains neither the "wrong session id" nor the "wrong id" protocol error when
  some proxy has received the message. When no proxy has received it, a message for an
  unknown session gives exactly the "wrong session id" error, and a message for a session
  without proxy connection whose id has no pending callback gives exactly the "wrong id"
  error.
\<close>

theorem onMessage_proxy_forwarding:
  "let ss = map snd (sessions (routers w this))
   in \<exists>rest.
        trace (onMessage patch this m w) = trace w @ proxyFanout m ss @ rest
      \<and> (consumedByProxy ss \<longrightarrow>
           (\<forall>x. ProtocolError ''Protocol Error: the message with wrong session id'' x \<notin> set rest
              \<and> ProtocolError ''Protocol Error: the message with wrong id'' x \<notin> set rest))
      \<and> (\<not> consumedByProxy ss \<longrightarrow>
           (map_of (sessions (routers w this)) (resolvedSessionId m) = None \<longrightarrow>
              rest = [ProtocolError ''Protocol Error: the message with wrong session id'' m])
         \<and> (\<forall>session i. map_of (sessions (routers w this)) (resolvedSessionId m) = Some session
                \<and> proxyConnection session = None
                \<and> msg_id (patched patch w session m) = Some i
                \<and> map_of (callbacks session) i = None \<longrightarrow>
              rest = [ProtocolError ''Protocol Error: the message with wrong id''
                        (patched patch w session m)]))"
  unfolding Let_def by (rule onMessage_trace)

theorem onMessage_proxy_forwarding_witness:
  "consumedByProxy (map snd (sessions (routers proxyWorld 0))) \<and>
   trace (onMessage id 0 (replyTo ''s'' 9 JUndefined JNull) proxyWorld) =
     trace proxyWorld @
       [ProxyMessage (Connection 5 True) (replyTo ''s'' 9 JUndefined JNull),
        ProtocolError ''Protocol Error: the session has a proxyConnection with no _onMessage''
          (replyTo ''s'' 9 JUndefined JNull)] \<and>
   \<not> consumedByProxy (map snd (sessions (routers oneSessionWorld 0))) \<and>
   trace (onMessage id 0 (replyTo ''s'' 9 JUndefined JNull) oneSessionWorld) =
     [ProtocolError ''Protocol Error: the message with wrong id'' (replyTo ''s'' 9 JUndefined JNull)] \<and>
   trace (onMessage id 0 (replyTo ''t'' 9 JUndefined JNull) oneSessionWorld) =
     [ProtocolError ''Protocol Error: the message with wrong session id''
        (replyTo ''t'' 9 JUndefined JNull)]"
  using onMessage_proxy_forwarding[of proxyWorld 0 id "replyTo ''s'' 9 JUndefined JNull"]
        onMessage_proxy_forwarding[of oneSessionWorld 0 id "replyTo ''s'' 9 JUndefined JNull"]
        onMessage_proxy_forwarding[of oneSessionWorld 0 id "replyTo ''t'' 9 JUndefined JNull"]
  by (simp add: proxyWorld_simps oneSessionWorld_simps Let_def consumedByProxy_def proxyFanout_def
        patched_def onMessage_unknown_id onMessage_unknown_session reportProtocolError_def)

text \<open>
  The claim as it was stated fails for a session whose proxy connection has no
  \<^verbatim>\<open>_onMessage\<close>: the message is not handed to it, and the errors are not suppressed.
\<close>

theorem onMessage_proxy_forwarding_counterexample:
  "map_of (sessions (routers deafProxyWorld 0)) ''q'' =
     Some \<lparr>target = 2, callbacks = [], proxyConnection = Some (Connection 6 False)\<rparr> \<and>
   trace (onMessage id 0 (replyTo ''s'' 9 JUndefined JNull) deafProxyWorld) =
     [ProtocolError ''Protocol Error: the session has a proxyConnection with no _onMessage''
        (replyTo ''s'' 9 JUndefined JNull),
      ProtocolError ''Protocol Error: the message with wrong id'' (replyTo ''s'' 9 JUndefined JNull)]"
  by (simp add: deafProxyWorld_simps consumedByProxy_def proxyFanout_def
        patched_def onMessage_unknown_id reportProtocolError_def)

section \<open>Frames of the router operations\<close>

lemma registerSession_frame [simp]:
  "routers (registerSession this tgt sid proxy w) =
     (routers w)(this := (routers w this)
        \<lparr>sessions := AList.update sid \<lparr>target = tgt, callbacks = [], proxyConnection = proxy\<rparr>
                       (sessions (routers w this))\<rparr>)"
  "targets (registerSession this tgt sid proxy w) = targets w"
  "tasks (registerSession this tgt sid proxy w) = tasks w"
  "promises (registerSession this tgt sid proxy w) = promises w"
  "filter isScriptRun (trace (registerSession this tgt sid proxy w)) = filter isScriptRun (trace w)"
  "filter isInvocation (trace (registerSession this tgt sid proxy w)) = filter isInvocation (trace w)"
  by (simp_all add: registerSession_def Let_def)

lemma unregisterSession_frame [simp]:
  "routers (unregisterSession this sid w) =
     (case map_of (sessions (routers w this)) sid of
        None \<Rightarrow> routers w
      | Some session \<Rightarrow>
          (routers w)(this := (routers w this)\<lparr>sessions := AList.delete sid (sessions (routers w this))\<rparr>))"
  "targets (unregisterSession this sid w) = targets w"
  "trace (unregisterSession this sid w) = trace w"
  "promises (unregisterSession this sid w) = promises w"
  by (simp_all add: unregisterSession_def fold_dispatchUnregisterSessionError split: option.split)

lemma sendMessage_frame [simp]:
  "routers (sendMessage this sid domain meth params cb w) =
     (routers w)(this := sent sid meth cb (routers w this))"
  "targets (sendMessage this sid domain meth params cb w) = targets w"
  "tasks (sendMessage this sid domain meth params cb w) = tasks w"
  "promises (sendMessage this sid domain meth params cb w) = promises w"
  "realm (sendMessage this sid domain meth params cb w) = realm w"
  "filter isScriptRun (trace (sendMessage this sid domain meth params cb w)) = filter isScriptRun (trace w)"
  "filter isInvocation (trace (sendMessage this sid domain meth params cb w)) = filter isInvocation (trace w)"
  by (simp_all add: sendMessage_def sent_def Let_def split: option.split)

lemma deprecatedRunAfterPendingDispatches_frame [simp]:
  "routers (deprecatedRunAfterPendingDispatches this scr w) =
     (case scr of None \<Rightarrow> routers w
      | Some s \<Rightarrow> (routers w)(this := (routers w this)\<lparr>pendingScripts := pendingScripts (routers w this) @ [s]\<rparr>))"
  "targets (deprecatedRunAfterPendingDispatches this scr w) = targets w"
  "tasks (deprecatedRunAfterPendingDispatches this scr w) = tasks w @ [DrainTimer this]"
  "trace (deprecatedRunAfterPendingDispatches this scr w) = trace w"
  "promises (deprecatedRunAfterPendingDispatches this scr w) = promises w"
  by (simp_all add: deprecatedRunAfterPendingDispatches_def split: option.split)

lemma pendingScripts_sent [simp]: "pendingScripts (sent sid meth cb r) = pendingScripts r"
  by (simp add: sent_def Let_def split: option.split)

lemma pendingScripts_answered [simp]: "pendingScripts (answered sid session i r) = pendingScripts r"
  by (simp add: answered_def)

lemma onMessage_pendingScripts [simp]:
  "pendingScripts (routers (onMessage patch this m w) a) = pendingScripts (routers w a)"
  using onMessage_routers[of patch this m w] by auto

lemma execCommand_pendingScripts:
  "pendingScripts (routers (execCommand patch c w) a) = pendingScripts (routers w a) @ enqueues a c"
  by (cases c) (auto split: option.split)

lemma execCommand_no_ScriptRun [simp]:
  "filter isScriptRun (trace (execCommand patch c w)) = filter isScriptRun (trace w)"
  by (cases c) auto

lemma fold_execCommand_pendingScripts:
  "pendingScripts (routers (fold (execCommand patch) cs w) a) =
     pendingScripts (routers w a) @ concat (map (enqueues a) cs)"
  by (induction cs arbitrary: w) (simp_all add: execCommand_pendingScripts)

lemma fold_execCommand_no_ScriptRun [simp]:
  "filter isScriptRun (trace (fold (execCommand patch) cs w)) = filter isScriptRun (trace w)"
  by (induction cs arbitrary: w) simp_all

lemma runScript_pendingScripts:
  "pendingScripts (routers (runScript patch s w) a) =
     pendingScripts (routers w a) @ concat (map (enqueues a) (body s))"
  by (cases s) (simp add: fold_execCommand_pendingScripts)

lemma runScript_ScriptRun:
  "filter isScriptRun (trace (runScript patch s w)) = filter isScriptRun (trace w) @ [ScriptRun (label s)]"
  by (cases s) simp

lemma fold_runScript:
  "pendingScripts (routers (fold (runScript patch) ss w) a) =
     pendingScripts (routers w a) @ concat (map (enqueues a) (concat (map body ss)))
   \<and> filter isScriptRun (trace (fold (runScript patch) ss w)) =
       filter isScriptRun (trace w) @ map (\<lambda>s. ScriptRun (label s)) ss"
  by (induction ss arbitrary: w) (simp_all add: runScript_pendingScripts runScript_ScriptRun)

lemma onMessage_tasks:
  "tasks (onMessage patch this m w) = tasks w \<or> tasks (onMessage patch this m w) = tasks w @ [DrainTimer this]"
proof (cases rule: onMessage_cases[of w this m _ patch])
  case unknown_session
  then show ?thesis by (simp add: onMessage_unknown_session reportProtocolError_def)
next
  case (proxy_session session)
  then show ?thesis by (simp add: onMessage_proxy_session)
next
  case (unknown_id session i)
  then show ?thesis by (simp add: onMessage_unknown_id reportProtocolError_def)
next
  case (response session i c)
  then show ?thesis by (simp add: onMessage_response onResponse_def Let_def)
next
  case (event session)
  then show ?thesis by (simp add: onMessage_event reportProtocolError_def split: option.split)
qed

lemma unregisterSession_tasks:
  "\<exists>ts. tasks (unregisterSession this sid w) = tasks w @ ts"
  by (simp add: unregisterSession_def fold_dispatchUnregisterSessionError split: option.split)

lemma execCommand_tasks:
  "\<exists>ts. tasks (execCommand patch c w) = tasks w @ ts \<and> (enqueues a c \<noteq> [] \<longrightarrow> DrainTimer a \<in> set ts)"
proof (cases c)
  case (OnMessage this m)
  then show ?thesis using onMessage_tasks[of patch this m w] by auto
next
  case (UnregisterSession this sid)
  then show ?thesis using unregisterSession_tasks[of this sid w] by auto
qed auto

lemma fold_execCommand_tasks:
  "\<exists>ts. tasks (fold (execCommand patch) cs w) = tasks w @ ts
        \<and> (concat (map (enqueues a) cs) \<noteq> [] \<longrightarrow> DrainTimer a \<in> set ts)"
proof (induction cs arbitrary: w)
  case Nil
  then show ?case by simp
next
  case (Cons c cs)
  obtain t1 where t1: "tasks (execCommand patch c w) = tasks w @ t1"
      "enqueues a c \<noteq> [] \<longrightarrow> DrainTimer a \<in> set t1"
    using execCommand_tasks[of patch c w a] by blast
  obtain t2 where t2: "tasks (fold (execCommand patch) cs (execCommand patch c w)) =
        tasks (execCommand patch c w) @ t2"
      "concat (map (enqueues a) cs) \<noteq> [] \<longrightarrow> DrainTimer a \<in> set t2"
    using Cons.IH[of "execCommand patch c w"] by blast
  show ?case
    by (rule exI[of _ "t1 @ t2"]) (use t1 t2 in auto)
qed

lemma fold_runScript_tasks:
  "\<exists>ts. tasks (fold (runScript patch) ss w) = tasks w @ ts
        \<and> (concat (map (enqueues a) (concat (map body ss))) \<noteq> [] \<longrightarrow> DrainTimer a \<in> set ts)"
proof (induction ss arbitrary: w)
  case Nil
  then show ?case by simp
next
  case (Cons s ss)
  obtain l cs where s: "s = Script l cs" by (cases s)
  obtain t1 where t1: "tasks (runScript patch s w) = tasks w @ t1"
      "concat (map (enqueues a) (body s)) \<noteq> [] \<longrightarrow> DrainTimer a \<in> set t1"
    using fold_execCommand_tasks[of patch cs "emit (ScriptRun l) w" a] s by auto
  obtain t2 where t2: "tasks (fold (runScript patch) ss (runScript patch s w)) =
        tasks (runScript patch s w) @ t2"
      "concat (map (enqueues a) (concat (map body ss))) \<noteq> [] \<longrightarrow> DrainTimer a \<in> set t2"
    using Cons.IH[of "runScript patch s w"] by blast
  show ?case
    by (rule exI[of _ "t1 @ t2"]) (use t1 t2 in auto)
qed

section \<open>Callbacks that the world holds\<close>

lemma onResponse_known_id_promises:
  assumes "map_of (callbacks session) i = Some c"
  shows "promises (onResponse this sid session m' i quiet w) =
           promises (invokeCallback (callback c) (orNull (msg_error m')) (orNull (msg_result m')) w)"
  using assms
  by (cases "callback c")
     (simp_all add: onResponse_def Let_def invokeCallback_def resolve_def emit_def updateRouter_def
        deprecatedRunAfterPendingDispatches_def setTimeout_def)

lemma withinI:
  assumes "worldCallbacks w' \<subseteq> worldCallbacks w \<union> X"
      and "invoked (trace w') \<subseteq> invoked (trace w) \<union> worldCallbacks w \<union> X"
      and "\<And>p. promises w' p \<noteq> promises w p \<Longrightarrow> \<exists>cb \<in> worldCallbacks w \<union> X. cb \<in> resolvers p"
  shows "within X w w'"
  using assms unfolding within_def by blast

lemma withinD:
  assumes "within X w w'"
  shows "worldCallbacks w' \<subseteq> worldCallbacks w \<union> X"
    and "invoked (trace w') \<subseteq> invoked (trace w) \<union> worldCallbacks w \<union> X"
    and "promises w' p \<noteq> promises w p \<Longrightarrow> \<exists>cb \<in> worldCallbacks w \<union> X. cb \<in> resolvers p"
  using assms unfolding within_def by blast+

lemma within_refl [simp]: "within X w w"
  by (rule withinI) auto

lemma within_trans:
  assumes "within X w w'" and "within Y w' w''"
  shows "within (X \<union> Y) w w''"
proof (rule withinI)
  show "worldCallbacks w'' \<subseteq> worldCallbacks w \<union> (X \<union> Y)"
    using withinD(1)[OF assms(1)] withinD(1)[OF assms(2)] by blast
  show "invoked (trace w'') \<subseteq> invoked (trace w) \<union> worldCallbacks w \<union> (X \<union> Y)"
    using withinD(1,2)[OF assms(1)] withinD(2)[OF assms(2)] by blast
  fix p
  assume ne: "promises w'' p \<noteq> promises w p"
  show "\<exists>cb \<in> worldCallbacks w \<union> (X \<union> Y). cb \<in> resolvers p"
  proof (cases "promises w' p = promises w p")
    case True
    with ne have "promises w'' p \<noteq> promises w' p" by simp
    from withinD(3)[OF assms(2) this] withinD(1)[OF assms(1)] show ?thesis by blast
  next
    case False
    from withinD(3)[OF assms(1) this] show ?thesis by blast
  qed
qed

lemma within_mono:
  assumes "within X w w'" and "X \<subseteq> Y"
  shows "within Y w w'"
proof (rule withinI)
  show "worldCallbacks w' \<subseteq> worldCallbacks w \<union> Y"
    using withinD(1)[OF assms(1)] assms(2) by blast
  show "invoked (trace w') \<subseteq> invoked (trace w) \<union> worldCallbacks w \<union> Y"
    using withinD(2)[OF assms(1)] assms(2) by blast
  fix p
  assume "promises w' p \<noteq> promises w p"
  from withinD(3)[OF assms(1) this] assms(2)
  show "\<exists>cb \<in> worldCallbacks w \<union> Y. cb \<in> resolvers p" by blast
qed

lemma within_held:
  assumes "within X w w'" and "X \<subseteq> worldCallbacks w"
  shows "within {} w w'"
proof (rule withinI)
  show "worldCallbacks w' \<subseteq> worldCallbacks w \<union> {}"
    using withinD(1)[OF assms(1)] assms(2) by blast
  show "invoked (trace w') \<subseteq> invoked (trace w) \<union> worldCallbacks w \<union> {}"
    using withinD(2)[OF assms(1)] assms(2) by blast
  fix p
  assume "promises w' p \<noteq> promises w p"
  from withinD(3)[OF assms(1) this] assms(2)
  show "\<exists>cb \<in> worldCallbacks w \<union> {}. cb \<in> resolvers p" by blast
qed

lemma within_trans0: "within {} w w' \<Longrightarrow> within X w' w'' \<Longrightarrow> within X w w''"
  using within_trans[of "{}" w w' X w''] by simp

lemma within_trans1: "within X w w' \<Longrightarrow> within {} w' w'' \<Longrightarrow> within X w w''"
  using within_trans[of X w w' "{}" w''] by simp

lemma invoked_append [simp]: "invoked (xs @ ys) = invoked xs \<union> invoked ys"
  by (auto simp: invoked_def)

lemma invoked_single:
  "invoked [e] = (case e of CallbackInvoked cb x y \<Rightarrow> {cb} | _ \<Rightarrow> {})"
  by (cases e) (auto simp: invoked_def)

lemma invoked_Nil [simp]: "invoked [] = {}"
  by (simp add: invoked_def)

lemma invoked_Cons [simp]:
  "invoked (CallbackInvoked cb x y # es) = insert cb (invoked es)"
  "\<not> isInvocation e \<Longrightarrow> invoked (e # es) = invoked es"
  by (cases e; auto simp: invoked_def)+

lemma worldCallbacks_emit [simp]: "worldCallbacks (emit e w) = worldCallbacks w"
  by (simp add: worldCallbacks_def)

lemma within_emit: "\<not> isInvocation e \<Longrightarrow> within {} w (emit e w)"
  by (rule withinI) auto

lemma within_setTimeout: "within (taskCallbacks t) w (setTimeout t w)"
  by (rule withinI) (auto simp: worldCallbacks_def)

lemma within_updateRouter:
  assumes "routerCallbacks (f (routers w a)) \<subseteq> routerCallbacks (routers w a) \<union> X"
  shows "within X w (updateRouter a f w)"
proof (rule withinI)
  show "worldCallbacks (updateRouter a f w) \<subseteq> worldCallbacks w \<union> X"
  proof
    fix x
    assume "x \<in> worldCallbacks (updateRouter a f w)"
    then consider b where "x \<in> routerCallbacks (((routers w)(a := f (routers w a))) b)"
      | "x \<in> (\<Union>t \<in> set (tasks w). taskCallbacks t)"
      by (auto simp: worldCallbacks_def)
    then show "x \<in> worldCallbacks w \<union> X"
    proof cases
      case 1
      show ?thesis
      proof (cases "b = a")
        case True
        with 1 assms have "x \<in> routerCallbacks (routers w a) \<union> X" by auto
        then show ?thesis by (auto simp: worldCallbacks_def)
      next
        case False
        with 1 show ?thesis by (auto simp: worldCallbacks_def)
      qed
    next
      case 2
      then show ?thesis by (auto simp: worldCallbacks_def)
    qed
  qed
qed auto

lemma worldCallbacks_invokeCallback [simp]:
  "worldCallbacks (invokeCallback cb e r w) = worldCallbacks w"
  by (simp add: worldCallbacks_def)

lemma within_invokeCallback: "within {cb} w (invokeCallback cb e r w)"
proof (rule withinI)
  show "worldCallbacks (invokeCallback cb e r w) \<subseteq> worldCallbacks w \<union> {cb}" by auto
  show "invoked (trace (invokeCallback cb e r w)) \<subseteq> invoked (trace w) \<union> worldCallbacks w \<union> {cb}"
    using invokeCallback_trace[of cb e r w] by auto
  fix p
  assume ne: "promises (invokeCallback cb e r w) p \<noteq> promises w p"
  have "cb \<in> resolvers p"
  proof (cases cb)
    case (ClientCallback n)
    with ne show ?thesis by (simp add: invokeCallback_def emit_def)
  next
    case (PromiseCallback q meth args)
    have "promises (invokeCallback cb e r w) p = promises w p" if "q \<noteq> p"
      using that PromiseCallback by (simp add: invokeCallback_def resolve_def emit_def)
    with ne have "q = p" by blast
    with PromiseCallback show ?thesis by (simp add: resolvers_def)
  qed
  then show "\<exists>cb \<in> worldCallbacks w \<union> {cb}. cb \<in> resolvers p" by blast
qed


lemma invoked_filter: "invoked (filter isInvocation tr) = invoked tr"
proof -
  have "e \<in> set tr \<and> isInvocation e \<longleftrightarrow> e \<in> set tr" if "e = CallbackInvoked cb x y" for e cb x y
    using that by simp
  then show ?thesis by (auto simp: invoked_def)
qed

lemma invoked_same:
  "filter isInvocation tr' = filter isInvocation tr \<Longrightarrow> invoked tr' = invoked tr"
  using invoked_filter[of tr'] invoked_filter[of tr] by simp

lemma worldCallbacks_subset:
  assumes "\<And>b. routerCallbacks (routers w' b) \<subseteq> routerCallbacks (routers w b) \<union> X"
      and "\<And>t. t \<in> set (tasks w') \<Longrightarrow> t \<in> set (tasks w) \<or> taskCallbacks t \<subseteq> worldCallbacks w \<union> X"
  shows "worldCallbacks w' \<subseteq> worldCallbacks w \<union> X"
proof
  fix x
  assume "x \<in> worldCallbacks w'"
  then consider b where "x \<in> routerCallbacks (routers w' b)"
    | t where "t \<in> set (tasks w')" "x \<in> taskCallbacks t"
    by (auto simp: worldCallbacks_def)
  then show "x \<in> worldCallbacks w \<union> X"
  proof cases
    case 1
    with assms(1)[of b] have "x \<in> routerCallbacks (routers w b) \<union> X" by blast
    then show ?thesis by (auto simp: worldCallbacks_def)
  next
    case 2
    from assms(2)[OF 2(1)] show ?thesis
    proof
      assume "t \<in> set (tasks w)"
      with 2(2) show ?thesis by (auto simp: worldCallbacks_def)
    next
      assume "taskCallbacks t \<subseteq> worldCallbacks w \<union> X"
      with 2(2) show ?thesis by blast
    qed
  qed
qed

lemma within_frame:
  assumes "\<And>b. routerCallbacks (routers w' b) \<subseteq> routerCallbacks (routers w b) \<union> X"
      and "\<And>t. t \<in> set (tasks w') \<Longrightarrow> t \<in> set (tasks w) \<or> taskCallbacks t \<subseteq> worldCallbacks w \<union> X"
      and "filter isInvocation (trace w') = filter isInvocation (trace w)"
      and "promises w' = promises w"
  shows "within X w w'"
proof (rule withinI)
  show "worldCallbacks w' \<subseteq> worldCallbacks w \<union> X"
    using assms(1,2) by (rule worldCallbacks_subset)
  show "invoked (trace w') \<subseteq> invoked (trace w) \<union> worldCallbacks w \<union> X"
    using invoked_same[OF assms(3)] by blast
  fix p
  assume "promises w' p \<noteq> promises w p"
  with assms(4) show "\<exists>cb \<in> worldCallbacks w \<union> X. cb \<in> resolvers p" by simp
qed

lemma set_update_subset: "set (AList.update k v al) \<subseteq> insert (k, v) (set al)"
  by (induction al) auto

lemma set_delete_subset: "set (AList.delete k al) \<subseteq> set al"
  by (auto simp: AList.delete_eq)

lemma held_callback:
  "map_of (sessions r) sid = Some session \<Longrightarrow> (i, c) \<in> set (callbacks session) \<Longrightarrow>
   callback c \<in> routerCallbacks r"
  by (force simp: routerCallbacks_def dest: map_of_SomeD)

lemma routerCallbacks_update:
  assumes "\<And>i c. (i, c) \<in> set (callbacks s) \<Longrightarrow> callback c \<in> routerCallbacks r \<union> X"
      and "sessions r' = AList.update sid s (sessions r)"
      and "pendingScripts r' = pendingScripts r"
  shows "routerCallbacks r' \<subseteq> routerCallbacks r \<union> X"
proof
  fix x
  assume "x \<in> routerCallbacks r'"
  then consider k s' i c where "(k, s') \<in> set (AList.update sid s (sessions r))"
        "(i, c) \<in> set (callbacks s')" "x = callback c"
    | "x \<in> (\<Union>s \<in> set (pendingScripts r). scriptCallbacks s)"
    unfolding routerCallbacks_def assms(2,3) by force
  then show "x \<in> routerCallbacks r \<union> X"
  proof cases
    case 1
    from 1(1) set_update_subset[of sid s "sessions r"]
    have "(k, s') = (sid, s) \<or> (k, s') \<in> set (sessions r)" by blast
    then show ?thesis
    proof
      assume "(k, s') = (sid, s)"
      with 1 assms(1) show ?thesis by auto
    next
      assume "(k, s') \<in> set (sessions r)"
      with 1 show ?thesis by (force simp: routerCallbacks_def)
    qed
  next
    case 2
    then show ?thesis by (simp add: routerCallbacks_def)
  qed
qed

lemma routerCallbacks_delete:
  assumes "sessions r' = AList.delete sid (sessions r)"
      and "pendingScripts r' = pendingScripts r"
  shows "routerCallbacks r' \<subseteq> routerCallbacks r"
  unfolding routerCallbacks_def assms using set_delete_subset[of sid "sessions r"] by blast

lemma routerCallbacks_same:
  assumes "sessions r' = sessions r" and "pendingScripts r' = pendingScripts r"
  shows "routerCallbacks r' = routerCallbacks r"
  unfolding routerCallbacks_def assms ..

lemma routerCallbacks_sent: "routerCallbacks (sent sid meth cb r) \<subseteq> routerCallbacks r \<union> {cb}"
proof (cases "map_of (sessions r) sid")
  case None
  then have "routerCallbacks (sent sid meth cb r) = routerCallbacks r"
    by (intro routerCallbacks_same) (simp_all add: sent_def Let_def)
  then show ?thesis by blast
next
  case (Some session)
  let ?s = "session\<lparr>callbacks := AList.update (lastMessageId r) \<lparr>callback = cb, methodName = meth\<rparr> (callbacks session)\<rparr>"
  show ?thesis
  proof (rule routerCallbacks_update[where s = ?s and sid = sid])
    fix i c
    assume "(i, c) \<in> set (callbacks ?s)"
    with set_update_subset[of "lastMessageId r" "\<lparr>callback = cb, methodName = meth\<rparr>" "callbacks session"]
    have "(i, c) = (lastMessageId r, \<lparr>callback = cb, methodName = meth\<rparr>) \<or> (i, c) \<in> set (callbacks session)"
      by auto
    then show "callback c \<in> routerCallbacks r \<union> {cb}"
      using held_callback[OF Some] by auto
  qed (use Some in \<open>simp_all add: sent_def Let_def\<close>)
qed

lemma routerCallbacks_answered:
  assumes "map_of (sessions r) sid = Some session"
  shows "routerCallbacks (answered sid session i r) \<subseteq> routerCallbacks r"
proof -
  let ?s = "session\<lparr>callbacks := AList.delete i (callbacks session)\<rparr>"
  have "routerCallbacks (answered sid session i r) \<subseteq> routerCallbacks r \<union> {}"
  proof (rule routerCallbacks_update[where s = ?s and sid = sid])
    fix j c
    assume "(j, c) \<in> set (callbacks ?s)"
    with set_delete_subset[of i "callbacks session"] have "(j, c) \<in> set (callbacks session)" by auto
    then show "callback c \<in> routerCallbacks r \<union> {}"
      using held_callback[OF assms] by auto
  qed (simp_all add: answered_def)
  then show ?thesis by simp
qed

lemma within_registerSession: "within {} w (registerSession this tgt sid proxy w)"
proof (rule within_frame)
  fix b
  let ?s = "\<lparr>target = tgt, callbacks = [], proxyConnection = proxy\<rparr>"
  have "routerCallbacks ((routers w this)\<lparr>sessions := AList.update sid ?s (sessions (routers w this))\<rparr>)
          \<subseteq> routerCallbacks (routers w this) \<union> {}"
    by (rule routerCallbacks_update[where s = ?s and sid = sid]) simp_all
  then show "routerCallbacks (routers (registerSession this tgt sid proxy w) b)
          \<subseteq> routerCallbacks (routers w b) \<union> {}"
    by (cases "b = this") simp_all
qed simp_all

lemma within_unregisterSession: "within {} w (unregisterSession this sid w)"
proof (cases "map_of (sessions (routers w this)) sid")
  case None
  then show ?thesis by (simp add: unregisterSession_def)
next
  case (Some session)
  show ?thesis
  proof (rule within_frame)
    fix b
    have "routerCallbacks ((routers w this)\<lparr>sessions := AList.delete sid (sessions (routers w this))\<rparr>)
            \<subseteq> routerCallbacks (routers w this)"
      by (rule routerCallbacks_delete[where sid = sid]) simp_all
    then show "routerCallbacks (routers (unregisterSession this sid w) b)
            \<subseteq> routerCallbacks (routers w b) \<union> {}"
      using Some by (cases "b = this") simp_all
  next
    fix t
    assume "t \<in> set (tasks (unregisterSession this sid w))"
    then consider "t \<in> set (tasks w)"
      | i c where "(i, c) \<in> set (callbacks session)" "taskCallbacks t = {callback c}"
      using Some by (auto simp: unregisterSession_def fold_dispatchUnregisterSessionError)
    then show "t \<in> set (tasks w) \<or> taskCallbacks t \<subseteq> worldCallbacks w \<union> {}"
    proof cases
      case 1
      then show ?thesis by simp
    next
      case 2
      from held_callback[OF Some 2(1)] have "callback c \<in> worldCallbacks w"
        by (auto simp: worldCallbacks_def)
      with 2(2) show ?thesis by simp
    qed
  qed simp_all
qed

lemma within_sendMessage: "within {cb} w (sendMessage this sid domain meth params cb w)"
proof (rule within_frame)
  fix b
  show "routerCallbacks (routers (sendMessage this sid domain meth params cb w) b)
          \<subseteq> routerCallbacks (routers w b) \<union> {cb}"
    using routerCallbacks_sent[of sid meth cb "routers w this"] by (cases "b = this") auto
qed simp_all

lemma within_deprecatedRunAfterPendingDispatches:
  "within (case scr of None \<Rightarrow> {} | Some s \<Rightarrow> scriptCallbacks s) w
     (deprecatedRunAfterPendingDispatches this scr w)"
proof (rule within_frame)
  fix b
  show "routerCallbacks (routers (deprecatedRunAfterPendingDispatches this scr w) b)
          \<subseteq> routerCallbacks (routers w b) \<union> (case scr of None \<Rightarrow> {} | Some s \<Rightarrow> scriptCallbacks s)"
    by (cases scr; cases "b = this") (auto simp: routerCallbacks_def)
next
  fix t
  assume "t \<in> set (tasks (deprecatedRunAfterPendingDispatches this scr w))"
  then show "t \<in> set (tasks w) \<or>
      taskCallbacks t \<subseteq> worldCallbacks w \<union> (case scr of None \<Rightarrow> {} | Some s \<Rightarrow> scriptCallbacks s)"
    by auto
qed simp_all


lemma worldCallbacks_afterFanout [simp]: "worldCallbacks (afterFanout this m w) = worldCallbacks w"
  by (simp add: worldCallbacks_def)

lemma onMessage_promises:
  "promises (onMessage patch this m w) = promises w \<or>
   (\<exists>session i c. map_of (sessions (routers w this)) (resolvedSessionId m) = Some session
       \<and> map_of (callbacks session) i = Some c
       \<and> promises (onMessage patch this m w) =
            promises (invokeCallback (callback c)
                        (orNull (msg_error (patched patch w session m)))
                        (orNull (msg_result (patched patch w session m))) (afterFanout this m w)))"
proof (cases rule: onMessage_cases[of w this m _ patch])
  case unknown_session
  then show ?thesis by (simp add: onMessage_unknown_session reportProtocolError_def)
next
  case (proxy_session session)
  then show ?thesis by (simp add: onMessage_proxy_session)
next
  case (unknown_id session i)
  then show ?thesis by (simp add: onMessage_unknown_id reportProtocolError_def)
next
  case (response session i c)
  then have "promises (onMessage patch this m w) =
            promises (invokeCallback (callback c)
                        (orNull (msg_error (patched patch w session m)))
                        (orNull (msg_result (patched patch w session m))) (afterFanout this m w))"
    by (simp add: onMessage_response onResponse_known_id_promises)
  with response show ?thesis by blast
next
  case (event session)
  then show ?thesis by (simp add: onMessage_event reportProtocolError_def split: option.split)
qed

lemma within_onMessage: "within {} w (onMessage patch this m w)"
proof (rule withinI)
  show "worldCallbacks (onMessage patch this m w) \<subseteq> worldCallbacks w \<union> {}"
  proof (rule worldCallbacks_subset)
    fix b
    from onMessage_routers[of patch this m w]
    show "routerCallbacks (routers (onMessage patch this m w) b) \<subseteq> routerCallbacks (routers w b) \<union> {}"
    proof
      assume "routers (onMessage patch this m w) = routers w"
      then show ?thesis by simp
    next
      assume "\<exists>session i c. map_of (sessions (routers w this)) (resolvedSessionId m) = Some session
       \<and> proxyConnection session = None
       \<and> msg_id (patched patch w session m) = Some i
       \<and> map_of (callbacks session) i = Some c
       \<and> routers (onMessage patch this m w) =
            (routers w)(this := answered (resolvedSessionId m) session i (routers w this))"
      then obtain session i where
        l: "map_of (sessions (routers w this)) (resolvedSessionId m) = Some session"
        and r: "routers (onMessage patch this m w) =
            (routers w)(this := answered (resolvedSessionId m) session i (routers w this))"
        by blast
      from routerCallbacks_answered[OF l, of i] show ?thesis
        unfolding r by (cases "b = this") auto
    qed
  next
    fix t
    assume "t \<in> set (tasks (onMessage patch this m w))"
    with onMessage_tasks[of patch this m w]
    show "t \<in> set (tasks w) \<or> taskCallbacks t \<subseteq> worldCallbacks w \<union> {}" by auto
  qed
next
  from onMessage_invocations[of patch this m w]
  show "invoked (trace (onMessage patch this m w)) \<subseteq> invoked (trace w) \<union> worldCallbacks w \<union> {}"
  proof
    assume "filter isInvocation (trace (onMessage patch this m w)) = filter isInvocation (trace w)"
    from invoked_same[OF this] show ?thesis by simp
  next
    assume "\<exists>session i c. map_of (sessions (routers w this)) (resolvedSessionId m) = Some session
       \<and> proxyConnection session = None
       \<and> msg_id (patched patch w session m) = Some i
       \<and> map_of (callbacks session) i = Some c
       \<and> filter isInvocation (trace (onMessage patch this m w)) =
            filter isInvocation (trace w) @
              [CallbackInvoked (callback c) (orNull (msg_error (patched patch w session m)))
                 (orNull (msg_result (patched patch w session m)))]"
    then obtain session i c e r where
      l: "map_of (sessions (routers w this)) (resolvedSessionId m) = Some session"
      and c: "map_of (callbacks session) i = Some c"
      and f: "filter isInvocation (trace (onMessage patch this m w)) =
            filter isInvocation (trace w) @ [CallbackInvoked (callback c) e r]"
      by blast
    from held_callback[OF l map_of_SomeD[OF c]] have "callback c \<in> worldCallbacks w"
      by (auto simp: worldCallbacks_def)
    moreover have "invoked (trace (onMessage patch this m w)) = invoked (trace w) \<union> {callback c}"
      using invoked_filter[of "trace (onMessage patch this m w)"] invoked_filter[of "trace w"]
      unfolding f by simp
    ultimately show ?thesis by simp
  qed
next
  fix p
  assume ne: "promises (onMessage patch this m w) p \<noteq> promises w p"
  from onMessage_promises[of patch this m w]
  show "\<exists>cb \<in> worldCallbacks w \<union> {}. cb \<in> resolvers p"
  proof
    assume "promises (onMessage patch this m w) = promises w"
    with ne show ?thesis by simp
  next
    assume "\<exists>session i c. map_of (sessions (routers w this)) (resolvedSessionId m) = Some session
       \<and> map_of (callbacks session) i = Some c
       \<and> promises (onMessage patch this m w) =
            promises (invokeCallback (callback c)
                        (orNull (msg_error (patched patch w session m)))
                        (orNull (msg_result (patched patch w session m))) (afterFanout this m w))"
    then obtain session i c e r where
      l: "map_of (sessions (routers w this)) (resolvedSessionId m) = Some session"
      and c: "map_of (callbacks session) i = Some c"
      and f: "promises (onMessage patch this m w) =
            promises (invokeCallback (callback c) e r (afterFanout this m w))"
      by blast
    from held_callback[OF l map_of_SomeD[OF c]] have h: "callback c \<in> worldCallbacks w"
      by (auto simp: worldCallbacks_def)
    from ne f have "promises (invokeCallback (callback c) e r (afterFanout this m w)) p
        \<noteq> promises (afterFanout this m w) p" by simp
    from withinD(3)[OF within_invokeCallback this] h show ?thesis by auto
  qed
qed

lemma within_execCommand: "within (commandCallbacks c) w (execCommand patch c w)"
proof (cases c)
  case (RegisterSession this tgt sid proxy)
  then show ?thesis using within_registerSession[of w this tgt sid proxy] by simp
next
  case (UnregisterSession this sid)
  then show ?thesis using within_unregisterSession[of w this sid] by simp
next
  case (SendMessage this sid domain meth params cb)
  then show ?thesis using within_sendMessage[of cb w this sid domain meth params] by simp
next
  case (OnMessage this m)
  then show ?thesis using within_onMessage[of w patch this m] by simp
next
  case (RunAfterPendingDispatches this s)
  then show ?thesis
    using within_deprecatedRunAfterPendingDispatches[of "Some s" w this] by simp
qed

lemma within_fold_execCommand:
  "within (\<Union>c \<in> set cs. commandCallbacks c) w (fold (execCommand patch) cs w)"
proof (induction cs arbitrary: w)
  case Nil
  then show ?case by simp
next
  case (Cons c cs)
  from within_trans[OF within_execCommand[of c w patch] Cons.IH[of "execCommand patch c w"]]
  show ?case by simp
qed

lemma within_runScript: "within (scriptCallbacks s) w (runScript patch s w)"
proof (cases s)
  case (Script l cs)
  have "within {} w (emit (ScriptRun l) w)" by (rule within_emit) simp
  from within_trans0[OF this within_fold_execCommand[of cs "emit (ScriptRun l) w" patch]]
  show ?thesis using Script by simp
qed

lemma within_fold_runScript:
  "within (\<Union>s \<in> set ss. scriptCallbacks s) w (fold (runScript patch) ss w)"
proof (induction ss arbitrary: w)
  case Nil
  then show ?case by simp
next
  case (Cons s ss)
  from within_trans[OF within_runScript[of s w patch] Cons.IH[of "runScript patch s w"]]
  show ?case by simp
qed

lemma within_executeAfterPendingDispatches:
  "within {} w (executeAfterPendingDispatches patch this w)"
proof (cases "hasOutstandingNonLongPollingRequests (routers w this)")
  case True
  then show ?thesis by (simp add: executeAfterPendingDispatches_def)
next
  case False
  let ?ss = "pendingScripts (routers w this)"
  let ?w0 = "updateRouter this (\<lambda>r. r\<lparr>pendingScripts := []\<rparr>) w"
  have "routerCallbacks ((routers w this)\<lparr>pendingScripts := []\<rparr>) \<subseteq> routerCallbacks (routers w this) \<union> {}"
    by (auto simp: routerCallbacks_def)
  then have "within {} w ?w0" by (rule within_updateRouter)
  from within_trans0[OF this within_fold_runScript[of ?ss ?w0 patch]]
  have "within (\<Union>s \<in> set ?ss. scriptCallbacks s) w (fold (runScript patch) ?ss ?w0)" .
  moreover have "(\<Union>s \<in> set ?ss. scriptCallbacks s) \<subseteq> worldCallbacks w"
    by (auto simp: worldCallbacks_def routerCallbacks_def)
  ultimately have "within {} w (fold (runScript patch) ?ss ?w0)" by (rule within_held)
  with False show ?thesis by (simp add: executeAfterPendingDispatches_def Let_def)
qed

lemma within_tick: "within {} w (tick patch w)"
proof (cases "tasks w")
  case Nil
  then show ?thesis by (simp add: tick_def)
next
  case (Cons t ts)
  let ?w0 = "w\<lparr>tasks := ts\<rparr>"
  have w0: "within {} w ?w0"
    by (rule within_frame) (use Cons in auto)
  have held: "taskCallbacks t \<subseteq> worldCallbacks w"
    using Cons by (auto simp: worldCallbacks_def)
  have "within {} w (runTask patch t ?w0)"
  proof (cases t)
    case (CallbackTimer cb e)
    from within_trans0[OF w0 within_invokeCallback[of cb ?w0 e JNull]]
    have "within {cb} w (invokeCallback cb e JNull ?w0)" .
    then have "within {} w (invokeCallback cb e JNull ?w0)"
      by (rule within_held) (use held CallbackTimer in simp)
    with CallbackTimer show ?thesis by simp
  next
    case (DrainTimer this)
    show ?thesis
    proof (cases "hasOutstandingNonLongPollingRequests (routers ?w0 this)")
      case True
      from within_trans0[OF w0 within_deprecatedRunAfterPendingDispatches[of None ?w0 this]]
      show ?thesis using True DrainTimer by simp
    next
      case False
      from within_trans0[OF w0 within_executeAfterPendingDispatches[of ?w0 patch this]]
      show ?thesis using False DrainTimer by simp
    qed
  qed
  with Cons show ?thesis by (simp add: tick_def)
qed

lemma within_exec: "within (opCallbacks x) w (exec patch x w)"
  by (cases x) (simp_all add: within_execCommand within_tick)

lemma within_run: "within (\<Union>x \<in> set ops. opCallbacks x) w (run patch ops w)"
  unfolding run_def
proof (induction ops arbitrary: w)
  case Nil
  then show ?case by simp
next
  case (Cons x ops)
  from within_trans[OF within_exec[of x w patch] Cons.IH[of "exec patch x w"]]
  show ?case by simp
qed

lemma never_invoked:
  assumes "cb \<notin> worldCallbacks w" and "cb \<notin> (\<Union>x \<in> set ops. opCallbacks x)"
      and "cb \<notin> invoked (trace w)"
  shows "cb \<notin> invoked (trace (run patch ops w))"
  using withinD(2)[OF within_run[of ops w patch]] assms by blast


section \<open>Registering a session again\<close>

text \<open>
  C10. When \<^verbatim>\<open>registerSession\<close> is called with a session id that the router already
  holds, the record under that id becomes a fresh one with the new target, the new proxy
  connection and an empty callback map; the other sessions stay. No timer is queued (so no
  connection-closed error will be delivered), no promise is settled and no callback is
  called. The world that results is the one that results when the old session had no
  pending callbacks at all, so nothing that happens later can depend on them: they are
  never called. In particular no message for that session calls a callback right after,
  and a callback of the old session that the world no longer holds anywhere (in no other
  session, script or timer) is not called in any run of later calls and turns of the event
  loop, unless one of these calls hands it in again.
  \<^verbatim>\<open>unregisterSession\<close> of the same session would have queued one timer for each
  pending callback.
\<close>

theorem registerSession_replaces:
  "map_of (sessions (routers w this)) sid = Some old \<longrightarrow>
   (let w' = registerSession this tgt sid proxy w
    in map_of (sessions (routers w' this)) =
         (map_of (sessions (routers w this)))
           (sid \<mapsto> \<lparr>target = tgt, callbacks = [], proxyConnection = proxy\<rparr>)
     \<and> tasks w' = tasks w
     \<and> promises w' = promises w
     \<and> filter isInvocation (trace w') = filter isInvocation (trace w)
     \<and> w' = registerSession this tgt sid proxy
               (updateRouter this
                  (\<lambda>r. r\<lparr>sessions := AList.update sid (old\<lparr>callbacks := []\<rparr>) (sessions r)\<rparr>) w)
     \<and> (\<forall>m. resolvedSessionId m = sid \<longrightarrow>
            filter isInvocation (trace (onMessage patch this m w')) = filter isInvocation (trace w'))
     \<and> (\<forall>c ops. c \<in> snd ` set (callbacks old)
            \<and> callback c \<notin> worldCallbacks w'
            \<and> callback c \<notin> (\<Union>x \<in> set ops. opCallbacks x)
            \<and> callback c \<notin> invoked (trace w) \<longrightarrow>
          callback c \<notin> invoked (trace (run patch ops w')))
     \<and> length (tasks (unregisterSession this sid w)) = length (tasks w) + length (callbacks old))"
proof (intro impI)
  assume old: "map_of (sessions (routers w this)) sid = Some old"
  let ?w' = "registerSession this tgt sid proxy w"
  let ?new = "\<lparr>target = tgt, callbacks = [], proxyConnection = proxy\<rparr>"
  have ss: "sessions (routers ?w' this) = AList.update sid ?new (sessions (routers w this))"
    by (simp add: registerSession_def Let_def)
  have a: "map_of (sessions (routers ?w' this)) = (map_of (sessions (routers w this)))(sid \<mapsto> ?new)"
    by (simp add: ss update_conv')
  have b: "tasks ?w' = tasks w" "promises ?w' = promises w"
    by (simp_all add: registerSession_def Let_def)
  have c: "filter isInvocation (trace ?w') = filter isInvocation (trace w)"
    by (simp add: registerSession_def Let_def)
  have lx: "list_ex (\<lambda>session. proxyConnection session \<noteq> None)
              (map snd (AList.update k (s\<lparr>callbacks := cs\<rparr>) al)) =
            list_ex (\<lambda>session. proxyConnection session \<noteq> None) (map snd al)"
    if "map_of al k = Some s" for k s cs and al :: "(string \<times> Session) list"
    using that by (induction al) auto
  have d: "?w' = registerSession this tgt sid proxy
               (updateRouter this
                  (\<lambda>r. r\<lparr>sessions := AList.update sid (old\<lparr>callbacks := []\<rparr>) (sessions r)\<rparr>) w)"
    using lx[OF old, of "[]"]
    by (simp add: registerSession_def Let_def updateRouter_def emit_def)
  have e: "filter isInvocation (trace (onMessage patch this m ?w')) = filter isInvocation (trace ?w')"
    if "resolvedSessionId m = sid" for m
    using onMessage_invocations[of patch this m ?w'] that by (auto simp: update_conv')
  have f: "length (tasks (unregisterSession this sid w)) = length (tasks w) + length (callbacks old)"
    using old by (simp add: unregisterSession_def fold_dispatchUnregisterSessionError)
  have g: "callback c \<notin> invoked (trace (run patch ops ?w'))"
    if "c \<in> snd ` set (callbacks old)
            \<and> callback c \<notin> worldCallbacks ?w'
            \<and> callback c \<notin> (\<Union>x \<in> set ops. opCallbacks x)
            \<and> callback c \<notin> invoked (trace w)" for c ops
  proof -
    from that invoked_same[OF c] have "callback c \<notin> invoked (trace ?w')" by simp
    with that show ?thesis by (intro never_invoked) blast+
  qed
  show "let w' = registerSession this tgt sid proxy w
    in map_of (sessions (routers w' this)) =
         (map_of (sessions (routers w this)))
           (sid \<mapsto> \<lparr>target = tgt, callbacks = [], proxyConnection = proxy\<rparr>)
     \<and> tasks w' = tasks w
     \<and> promises w' = promises w
     \<and> filter isInvocation (trace w') = filter isInvocation (trace w)
     \<and> w' = registerSession this tgt sid proxy
               (updateRouter this
                  (\<lambda>r. r\<lparr>sessions := AList.update sid (old\<lparr>callbacks := []\<rparr>) (sessions r)\<rparr>) w)
     \<and> (\<forall>m. resolvedSessionId m = sid \<longrightarrow>
            filter isInvocation (trace (onMessage patch this m w')) = filter isInvocation (trace w'))
     \<and> (\<forall>c ops. c \<in> snd ` set (callbacks old)
            \<and> callback c \<notin> worldCallbacks w'
            \<and> callback c \<notin> (\<Union>x \<in> set ops. opCallbacks x)
            \<and> callback c \<notin> invoked (trace w) \<longrightarrow>
          callback c \<notin> invoked (trace (run patch ops w')))
     \<and> length (tasks (unregisterSession this sid w)) = length (tasks w) + length (callbacks old)"
    unfolding Let_def using a b c d e f g by blast
qed


theorem registerSession_replaces_witness:
  "map_of (sessions (routers twoPendingWorld 0)) ''s'' =
     Some \<lparr>target = 0,
           callbacks = [(1, \<lparr>callback = ClientCallback 7, methodName = ''Page.enable''\<rparr>),
                        (2, \<lparr>callback = ClientCallback 8, methodName = ''DOM.enable''\<rparr>)],
           proxyConnection = None\<rparr> \<and>
   sessions (routers (registerSession 0 1 ''s'' None twoPendingWorld) 0) =
     [(''s'', \<lparr>target = 1, callbacks = [], proxyConnection = None\<rparr>)] \<and>
   tasks (registerSession 0 1 ''s'' None twoPendingWorld) = [] \<and>
   filter isInvocation
     (trace (onMessage id 0 (replyTo ''s'' 1 JUndefined JNull)
               (registerSession 0 1 ''s'' None twoPendingWorld))) =
     filter isInvocation (trace twoPendingWorld) \<and>
   worldCallbacks (registerSession 0 1 ''s'' None twoPendingWorld) = {} \<and>
   invoked (trace twoPendingWorld) = {} \<and>
   ClientCallback 7 \<notin>
     invoked (trace (run id [Call (OnMessage 0 (replyTo ''s'' 1 JUndefined JNull)), Tick,
                             Call (RunAfterPendingDispatches 0 (Script 1 [])), Tick]
                       (registerSession 0 1 ''s'' None twoPendingWorld))) \<and>
   length (tasks (unregisterSession 0 ''s'' twoPendingWorld)) = 2"
proof -
  let ?old = "\<lparr>target = 0,
           callbacks = [(1, \<lparr>callback = ClientCallback 7, methodName = ''Page.enable''\<rparr>),
                        (2, \<lparr>callback = ClientCallback 8, methodName = ''DOM.enable''\<rparr>)],
           proxyConnection = None\<rparr>"
  let ?w' = "registerSession 0 1 ''s'' None twoPendingWorld"
  have h: "map_of (sessions (routers twoPendingWorld 0)) ''s'' = Some ?old"
    by (simp add: twoPendingWorld_simps)
  note r = registerSession_replaces[of twoPendingWorld 0 "''s''" ?old 1 None id,
             THEN mp, OF h, unfolded Let_def]
  from r have "tasks ?w' = tasks twoPendingWorld"
    by blast
  then have t: "tasks ?w' = []"
    by (simp add: twoPendingWorld_simps)
  from r have i0: "filter isInvocation (trace ?w') = filter isInvocation (trace twoPendingWorld)"
    by blast
  from r have "\<forall>m. resolvedSessionId m = ''s'' \<longrightarrow>
      filter isInvocation (trace (onMessage id 0 m ?w')) = filter isInvocation (trace ?w')"
    by blast
  then have i1: "filter isInvocation (trace (onMessage id 0 (replyTo ''s'' 1 JUndefined JNull) ?w')) =
      filter isInvocation (trace twoPendingWorld)"
    using i0 by simp
  from r have "length (tasks (unregisterSession 0 ''s'' twoPendingWorld)) =
      length (tasks twoPendingWorld) + length (callbacks ?old)"
    by blast
  then have l: "length (tasks (unregisterSession 0 ''s'' twoPendingWorld)) = 2"
    by (simp add: twoPendingWorld_simps)
  have s: "sessions (routers ?w' 0) = [(''s'', \<lparr>target = 1, callbacks = [], proxyConnection = None\<rparr>)]"
    by (simp add: registerSession_def twoPendingWorld_simps)
  have "routerCallbacks (routers ?w' b) = {}" for b
  proof (cases "b = 0")
    case True
    then show ?thesis by (simp add: routerCallbacks_def twoPendingWorld_simps)
  next
    case False
    then show ?thesis
      by (simp add: routerCallbacks_def twoPendingWorld_def oneSessionWorld_def
            newSessionRouter_def initialWorld_def newRouter_def)
  qed
  with t have wc: "worldCallbacks ?w' = {}"
    by (simp add: worldCallbacks_def)
  have "filter isInvocation (trace twoPendingWorld) = []"
    by (simp add: twoPendingWorld_def oneSessionWorld_simps)
  from invoked_same[of "trace twoPendingWorld" "[]"] this
  have iv: "invoked (trace twoPendingWorld) = {}" by simp
  let ?ops = "[Call (OnMessage 0 (replyTo ''s'' 1 JUndefined JNull)), Tick,
               Call (RunAfterPendingDispatches 0 (Script 1 [])), Tick]"
  let ?c = "\<lparr>callback = ClientCallback 7, methodName = ''Page.enable''\<rparr>"
  from r have "\<forall>c ops. c \<in> snd ` set (callbacks ?old)
            \<and> callback c \<notin> worldCallbacks ?w'
            \<and> callback c \<notin> (\<Union>x \<in> set ops. opCallbacks x)
            \<and> callback c \<notin> invoked (trace twoPendingWorld) \<longrightarrow>
          callback c \<notin> invoked (trace (run id ops ?w'))"
    by blast
  from this[rule_format, of ?c ?ops] wc iv
  have nv: "ClientCallback 7 \<notin> invoked (trace (run id ?ops ?w'))"
    by simp
  from h t i1 l s wc iv nv show ?thesis by blast
qed

section \<open>The drain barrier\<close>

text \<open>
  C7. \<^verbatim>\<open>_deprecatedRunAfterPendingDispatches(script)\<close> puts the script at the end of the
  queue of the router and queues a macrotask. When that macrotask runs while requests
  other than long-polling ones are outstanding, it changes no router, runs nothing and
  queues itself again. When it runs while none is outstanding, the scripts that were in
  the queue run, each once, in the order in which they were queued, and no other script
  runs; the queue then holds exactly the scripts that those scripts have handed to the
  barrier of this router while they ran, and when there is such a script a macrotask for a
  later pass is queued.
\<close>

theorem drain_barrier:
  "(let w' = deprecatedRunAfterPendingDispatches this (Some s) w
    in pendingScripts (routers w' this) = pendingScripts (routers w this) @ [s]
     \<and> tasks w' = tasks w @ [DrainTimer this]
     \<and> trace w' = trace w)
   \<and> (hasOutstandingNonLongPollingRequests (routers w this) \<longrightarrow>
        (let w' = runTask patch (DrainTimer this) w
         in routers w' = routers w \<and> tasks w' = tasks w @ [DrainTimer this] \<and> trace w' = trace w))
   \<and> (\<not> hasOutstandingNonLongPollingRequests (routers w this) \<longrightarrow>
        (let w' = runTask patch (DrainTimer this) w;
             scripts = pendingScripts (routers w this)
         in filter isScriptRun (trace w') =
              filter isScriptRun (trace w) @ map (\<lambda>s. ScriptRun (label s)) scripts
          \<and> pendingScripts (routers w' this) =
              concat (map (enqueues this) (concat (map body scripts)))
          \<and> (pendingScripts (routers w' this) \<noteq> [] \<longrightarrow> DrainTimer this \<in> set (tasks w'))))"
proof -
  let ?w0 = "updateRouter this (\<lambda>r. r\<lparr>pendingScripts := []\<rparr>) w"
  let ?ss = "pendingScripts (routers w this)"
  obtain ts where ts: "tasks (fold (runScript patch) ?ss ?w0) = tasks ?w0 @ ts"
     "concat (map (enqueues this) (concat (map body ?ss))) \<noteq> [] \<longrightarrow> DrainTimer this \<in> set ts"
    using fold_runScript_tasks[of patch ?ss ?w0 this] by blast
  show ?thesis
    using fold_runScript[of patch ?ss ?w0 this] ts
    by (simp add: Let_def executeAfterPendingDispatches_def)
qed

theorem drain_barrier_witness:
  "\<not> hasOutstandingNonLongPollingRequests (routers drainWorld 0) \<and>
   pendingScripts (routers drainWorld 0) =
     [Script 1 [RunAfterPendingDispatches 0 (Script 3 [])], Script 2 []] \<and>
   filter isScriptRun (trace (runTask id (DrainTimer 0) drainWorld)) = [ScriptRun 1, ScriptRun 2] \<and>
   pendingScripts (routers (runTask id (DrainTimer 0) drainWorld) 0) = [Script 3 []] \<and>
   DrainTimer 0 \<in> set (tasks (runTask id (DrainTimer 0) drainWorld)) \<and>
   hasOutstandingNonLongPollingRequests (routers blockedDrainWorld 0) \<and>
   pendingScripts (routers (runTask id (DrainTimer 0) blockedDrainWorld) 0) = [Script 2 []] \<and>
   trace (runTask id (DrainTimer 0) blockedDrainWorld) = trace blockedDrainWorld \<and>
   tasks (runTask id (DrainTimer 0) blockedDrainWorld) = [DrainTimer 0, DrainTimer 0]"
proof -
  have a: "\<not> hasOutstandingNonLongPollingRequests (routers drainWorld 0)"
    by (simp add: drainWorld_def hasOutstandingNonLongPollingRequests_def oneSessionWorld_simps)
  have b: "pendingScripts (routers drainWorld 0) =
     [Script 1 [RunAfterPendingDispatches 0 (Script 3 [])], Script 2 []]"
    by (simp add: drainWorld_def oneSessionWorld_simps)
  have c: "trace drainWorld = []"
    by (simp add: drainWorld_def oneSessionWorld_simps)
  have d: "hasOutstandingNonLongPollingRequests (routers blockedDrainWorld 0)"
    by (simp add: blockedDrainWorld_def hasOutstandingNonLongPollingRequests_def twoPendingWorld_simps)
  have e: "pendingScripts (routers blockedDrainWorld 0) = [Script 2 []]"
     "tasks blockedDrainWorld = [DrainTimer 0]"
    by (simp_all add: blockedDrainWorld_def twoPendingWorld_simps)
  note t1 = drain_barrier[of 0 "Script 0 []" drainWorld id, THEN conjunct2, THEN conjunct2,
              THEN mp, OF a, unfolded Let_def]
  note t2 = drain_barrier[of 0 "Script 0 []" blockedDrainWorld id, THEN conjunct2, THEN conjunct1,
              THEN mp, OF d, unfolded Let_def]
  from t1 have f: "filter isScriptRun (trace (runTask id (DrainTimer 0) drainWorld)) = [ScriptRun 1, ScriptRun 2]"
    by (simp add: b c)
  from t1 have g: "pendingScripts (routers (runTask id (DrainTimer 0) drainWorld) 0) = [Script 3 []]"
    by (simp add: b)
  from t1 g have h: "DrainTimer 0 \<in> set (tasks (runTask id (DrainTimer 0) drainWorld))"
    by simp
  from t2 e have i: "pendingScripts (routers (runTask id (DrainTimer 0) blockedDrainWorld) 0) = [Script 2 []]"
     "trace (runTask id (DrainTimer 0) blockedDrainWorld) = trace blockedDrainWorld"
     "tasks (runTask id (DrainTimer 0) blockedDrainWorld) = [DrainTimer 0, DrainTimer 0]"
    by simp_all
  from a b f g h d i show ?thesis by blast
qed

section \<open>Long-polling calls\<close>

lemma sent_simps [simp]:
  "lastMessageId (sent sid meth cb r) = lastMessageId r + 1"
  "pendingResponsesCount (sent sid meth cb r) = pendingResponsesCount r + 1"
  "pendingLongPollingMessageIds (sent sid meth cb r) =
     (if meth \<in> LongPollingMethods then insert (lastMessageId r) (pendingLongPollingMessageIds r)
      else pendingLongPollingMessageIds r)"
  "connection (sent sid meth cb r) = connection r"
  by (simp_all add: sent_def Let_def split: option.split)

lemma sent_sessions:
  "sessions (sent sid meth cb r) =
     (case map_of (sessions r) sid of
        None \<Rightarrow> sessions r
      | Some session \<Rightarrow>
          AList.update sid
            (session\<lparr>callbacks :=
               AList.update (lastMessageId r) \<lparr>callback = cb, methodName = meth\<rparr> (callbacks session)\<rparr>)
            (sessions r))"
  by (simp add: sent_def Let_def split: option.split)

lemma sent_lookup_same:
  "map_of (sessions r) sid = Some session \<Longrightarrow>
   map_of (sessions (sent sid meth cb r)) sid =
     Some (session\<lparr>callbacks :=
             AList.update (lastMessageId r) \<lparr>callback = cb, methodName = meth\<rparr> (callbacks session)\<rparr>)"
  by (simp add: sent_sessions update_conv')

lemma sent_lookup_other:
  "sid' \<noteq> sid \<Longrightarrow> map_of (sessions (sent sid meth cb r)) sid' = map_of (sessions r) sid'"
  by (simp add: sent_sessions update_conv' split: option.split)

lemma answered_simps [simp]:
  "lastMessageId (answered sid session i r) = lastMessageId r"
  "pendingResponsesCount (answered sid session i r) = pendingResponsesCount r - 1"
  "pendingLongPollingMessageIds (answered sid session i r) = pendingLongPollingMessageIds r - {i}"
  "sessions (answered sid session i r) =
     AList.update sid (session\<lparr>callbacks := AList.delete i (callbacks session)\<rparr>) (sessions r)"
  "connection (answered sid session i r) = connection r"
  by (simp_all add: answered_def)

lemma patched_cong:
  "targets w' = targets w \<Longrightarrow> target s' = target s \<Longrightarrow> patched patch w' s' m = patched patch w s m"
  by (simp add: patched_def)







section \<open>Responses reach the callback of their call\<close>

lemma awaits_step:
  assumes "awaits w session this sid i c w'"
      and "isTraffic x"
      and "\<not> answers patch w session this sid i x"
  shows "awaits w session this sid i c (execCommand patch x w')"
proof -
  from assms(1) obtain s where tg: "targets w' = targets w" and lt: "i < lastMessageId (routers w' this)"
    and s: "map_of (sessions (routers w' this)) sid = Some s" "proxyConnection s = None"
        "target s = target session" "map_of (callbacks s) i = Some c"
    by (auto simp: awaits_def)
  show ?thesis
  proof (cases x)
    case (SendMessage a sid' domain meth params cb)
    show ?thesis
    proof (cases "a = this")
      case False
      with SendMessage tg lt s show ?thesis by (auto simp: awaits_def)
    next
      case True
      show ?thesis
      proof (cases "sid' = sid")
        case False
        with SendMessage \<open>a = this\<close> tg lt s show ?thesis
          by (auto simp: awaits_def sent_lookup_other)
      next
        case True
        with SendMessage \<open>a = this\<close> tg lt s show ?thesis
          by (auto simp: awaits_def sent_lookup_same update_conv')
      qed
    qed
  next
    case (OnMessage a m)
    from onMessage_routers[of patch a m w']
    show ?thesis
    proof
      assume "routers (onMessage patch a m w') = routers w'"
      with OnMessage tg lt s show ?thesis by (auto simp: awaits_def)
    next
      assume "\<exists>session i c. map_of (sessions (routers w' a)) (resolvedSessionId m) = Some session
       \<and> proxyConnection session = None
       \<and> msg_id (patched patch w' session m) = Some i
       \<and> map_of (callbacks session) i = Some c
       \<and> routers (onMessage patch a m w') =
            (routers w')(a := answered (resolvedSessionId m) session i (routers w' a))"
      then obtain s'' i'' c'' where
        r: "map_of (sessions (routers w' a)) (resolvedSessionId m) = Some s''"
           "msg_id (patched patch w' s'' m) = Some i''"
           "routers (onMessage patch a m w') =
              (routers w')(a := answered (resolvedSessionId m) s'' i'' (routers w' a))"
        by blast
      show ?thesis
      proof (cases "a = this")
        case False
        with OnMessage tg lt s r show ?thesis by (auto simp: awaits_def)
      next
        case True
        show ?thesis
        proof (cases "resolvedSessionId m = sid")
          case False
          with OnMessage \<open>a = this\<close> tg lt s r show ?thesis
            by (auto simp: awaits_def update_conv')
        next
          case True
          with r(1) s(1) \<open>a = this\<close> have same: "s'' = s" by simp
          have "patched patch w' s m = patched patch w session m"
            by (rule patched_cong) (simp_all add: tg s)
          with assms(3) OnMessage \<open>a = this\<close> True r(2) same have "i'' \<noteq> i" by auto
          with OnMessage \<open>a = this\<close> True tg lt s r same show ?thesis
            by (auto simp: awaits_def update_conv')
        qed
      qed
    qed
  qed (use assms(2) in simp_all)
qed

lemma awaits_fold:
  assumes "awaits w session this sid i c w'"
      and "\<forall>x \<in> set cs. isTraffic x \<and> \<not> answers patch w session this sid i x"
  shows "awaits w session this sid i c (fold (execCommand patch) cs w')"
  using assms
proof (induction cs arbitrary: w')
  case Nil
  then show ?case by simp
next
  case (Cons x cs)
  from Cons.prems have "awaits w session this sid i c (execCommand patch x w')"
    by (intro awaits_step) auto
  with Cons show ?case by simp
qed

text \<open>
  C1 (amended). A call of \<^verbatim>\<open>sendMessage\<close> on a registered session without proxy connection gets
  the next id of the router. Whatever calls of \<^verbatim>\<open>sendMessage\<close> (on any session of any
  router, with any callback) and whatever incoming messages other than an answer to this
  very call follow, in any order, the response that carries this id on this session calls
  exactly one callback, the one given to the call, with the error or null and the result
  or null of the message (as \<^verbatim>\<open>NodeURL.patch\<close> has left it when the target needs
  patching), and the session no longer holds a callback under the id. In every world, an
  incoming message calls no callback or exactly one, the one that the session named by the
  message holds under the id of the message. A message for a session that holds a proxy
  connection is left to the proxy: it calls no callback and changes no router, so the
  callbacks of that session stay stored.
\<close>

theorem reply_reaches_its_callback:
  assumes "map_of (sessions (routers w this)) sid = Some session"
      and "proxyConnection session = None"
      and "\<forall>x \<in> set cs. isTraffic x \<and>
             \<not> answers patch w session this sid (lastMessageId (routers w this)) x"
      and "resolvedSessionId m = sid"
      and "msg_id (patched patch w session m) = Some (lastMessageId (routers w this))"
  shows "(let i = lastMessageId (routers w this);
              w1 = sendMessage this sid domain meth params cb w;
              w2 = fold (execCommand patch) cs w1;
              w3 = onMessage patch this m w2;
              m' = patched patch w session m
          in filter isInvocation (trace w3) =
               filter isInvocation (trace w2) @
                 [CallbackInvoked cb (orNull (msg_error m')) (orNull (msg_result m'))]
           \<and> (\<exists>s. map_of (sessions (routers w3 this)) sid = Some s \<and> map_of (callbacks s) i = None))
       \<and> (\<forall>v a x.
            filter isInvocation (trace (onMessage patch a x v)) = filter isInvocation (trace v)
          \<or> (\<exists>s j c. map_of (sessions (routers v a)) (resolvedSessionId x) = Some s
                \<and> proxyConnection s = None
                \<and> msg_id (patched patch v s x) = Some j
                \<and> map_of (callbacks s) j = Some c
                \<and> filter isInvocation (trace (onMessage patch a x v)) =
                     filter isInvocation (trace v) @
                       [CallbackInvoked (callback c) (orNull (msg_error (patched patch v s x)))
                          (orNull (msg_result (patched patch v s x)))]))
       \<and> (\<forall>v a x s. map_of (sessions (routers v a)) (resolvedSessionId x) = Some s
              \<and> proxyConnection s \<noteq> None \<longrightarrow>
            filter isInvocation (trace (onMessage patch a x v)) = filter isInvocation (trace v)
          \<and> routers (onMessage patch a x v) = routers v)"
proof -
  let ?i = "lastMessageId (routers w this)"
  let ?c = "\<lparr>callback = cb, methodName = meth\<rparr>"
  let ?w1 = "sendMessage this sid domain meth params cb w"
  let ?w2 = "fold (execCommand patch) cs ?w1"
  have "awaits w session this sid ?i ?c ?w1"
    using assms(1,2) by (simp add: awaits_def sent_lookup_same update_conv')
  from awaits_fold[OF this assms(3)]
  obtain s where tg: "targets ?w2 = targets w"
    and s: "map_of (sessions (routers ?w2 this)) sid = Some s" "proxyConnection s = None"
        "target s = target session" "map_of (callbacks s) ?i = Some ?c"
    by (auto simp: awaits_def)
  have pt: "patched patch ?w2 s m = patched patch w session m"
    by (rule patched_cong) (simp_all add: tg s)
  have om: "onMessage patch this m ?w2 =
      onResponse this sid s (patched patch w session m) ?i
        (consumedByProxy (map snd (sessions (routers ?w2 this)))) (afterFanout this m ?w2)"
    using onMessage_response[of ?w2 this m s patch ?i] s assms(4,5) pt by simp
  have inv: "filter isInvocation (trace (onMessage patch this m ?w2)) =
      filter isInvocation (trace ?w2) @
        [CallbackInvoked cb (orNull (msg_error (patched patch w session m)))
           (orNull (msg_result (patched patch w session m)))]"
    by (simp add: om onResponse_known_id(4)[OF s(4)])
  have "map_of (sessions (routers (onMessage patch this m ?w2) this)) sid =
      Some (s\<lparr>callbacks := AList.delete ?i (callbacks s)\<rparr>)"
    by (simp add: om onResponse_known_id(1)[OF s(4)] update_conv')
  moreover have "map_of (callbacks (s\<lparr>callbacks := AList.delete ?i (callbacks s)\<rparr>)) ?i = None"
    by (simp add: delete_conv')
  ultimately have gone: "\<exists>s. map_of (sessions (routers (onMessage patch this m ?w2) this)) sid = Some s
      \<and> map_of (callbacks s) ?i = None"
    by blast
  have pairing: "\<forall>v a x.
            filter isInvocation (trace (onMessage patch a x v)) = filter isInvocation (trace v)
          \<or> (\<exists>s j c. map_of (sessions (routers v a)) (resolvedSessionId x) = Some s
                \<and> proxyConnection s = None
                \<and> msg_id (patched patch v s x) = Some j
                \<and> map_of (callbacks s) j = Some c
                \<and> filter isInvocation (trace (onMessage patch a x v)) =
                     filter isInvocation (trace v) @
                       [CallbackInvoked (callback c) (orNull (msg_error (patched patch v s x)))
                          (orNull (msg_result (patched patch v s x)))])"
    by (intro allI) (rule onMessage_invocations)
  from inv gone have "let i = lastMessageId (routers w this);
              w1 = sendMessage this sid domain meth params cb w;
              w2 = fold (execCommand patch) cs w1;
              w3 = onMessage patch this m w2;
              m' = patched patch w session m
          in filter isInvocation (trace w3) =
               filter isInvocation (trace w2) @
                 [CallbackInvoked cb (orNull (msg_error m')) (orNull (msg_result m'))]
           \<and> (\<exists>s. map_of (sessions (routers w3 this)) sid = Some s \<and> map_of (callbacks s) i = None)"
    by (simp add: Let_def)
  moreover have "\<forall>v a x s. map_of (sessions (routers v a)) (resolvedSessionId x) = Some s
              \<and> proxyConnection s \<noteq> None \<longrightarrow>
            filter isInvocation (trace (onMessage patch a x v)) = filter isInvocation (trace v)
          \<and> routers (onMessage patch a x v) = routers v"
    by (auto simp: onMessage_proxy_session)
  ultimately show ?thesis using pairing by blast
qed


theorem reply_reaches_its_callback_witness:
  "map_of (sessions (routers oneSessionWorld 0)) ''s'' =
     Some \<lparr>target = 0, callbacks = [], proxyConnection = None\<rparr> \<and>
   lastMessageId (routers oneSessionWorld 0) = 1 \<and>
   list_all isTraffic crossTraffic \<and>
   \<not> list_ex (answers id oneSessionWorld \<lparr>target = 0, callbacks = [], proxyConnection = None\<rparr>
                0 ''s'' 1) crossTraffic \<and>
   filter isInvocation
     (trace (onMessage id 0 (replyTo ''s'' 1 JUndefined (JObj [(''x'', JNum 1)]))
        (fold (execCommand id) crossTraffic
           (sendMessage 0 ''s'' ''Page'' ''Page.enable'' JNull (ClientCallback 7) oneSessionWorld)))) =
     [CallbackInvoked (ClientCallback 8) JNull JNull,
      CallbackInvoked (ClientCallback 7) JNull (JObj [(''x'', JNum 1)])] \<and>
   map_of (sessions (routers proxyWorld 0)) ''p'' =
     Some \<lparr>target = 1, callbacks = [], proxyConnection = Some (Connection 5 True)\<rparr> \<and>
   routers (onMessage id 0 (replyTo ''p'' 1 JUndefined JNull) proxyWorld) = routers proxyWorld"
proof -
  let ?s = "\<lparr>target = 0, callbacks = [], proxyConnection = None\<rparr>"
  let ?m = "replyTo ''s'' 1 JUndefined (JObj [(''x'', JNum 1)])"
  let ?w1 = "sendMessage 0 ''s'' ''Page'' ''Page.enable'' JNull (ClientCallback 7) oneSessionWorld"
  let ?w1' = "sendMessage 0 ''s'' ''DOM'' ''DOM.enable'' JNull (ClientCallback 8) ?w1"
  have h1: "map_of (sessions (routers oneSessionWorld 0)) ''s'' = Some ?s"
    and h2: "proxyConnection ?s = None"
    and h0: "lastMessageId (routers oneSessionWorld 0) = 1"
    by (simp_all add: oneSessionWorld_simps)
  have h3: "\<forall>x \<in> set crossTraffic. isTraffic x \<and>
       \<not> answers id oneSessionWorld ?s 0 ''s'' (lastMessageId (routers oneSessionWorld 0)) x"
    by (simp add: crossTraffic_def oneSessionWorld_simps patched_def)
  have h4: "resolvedSessionId ?m = ''s''"
    and h5: "msg_id (patched id oneSessionWorld ?s ?m) = Some (lastMessageId (routers oneSessionWorld 0))"
    by (simp_all add: oneSessionWorld_simps patched_def)
  note t = reply_reaches_its_callback[OF h1 h2 h3 h4 h5, of "''Page''" "''Page.enable''" JNull
             "ClientCallback 7", unfolded Let_def, THEN conjunct1, THEN conjunct1]
  let ?s2 = "\<lparr>target = 0,
            callbacks = [(1, \<lparr>callback = ClientCallback 7, methodName = ''Page.enable''\<rparr>),
                         (2, \<lparr>callback = ClientCallback 8, methodName = ''DOM.enable''\<rparr>)],
            proxyConnection = None\<rparr>"
  let ?m2 = "replyTo ''s'' 2 JUndefined JNull"
  have l: "map_of (sessions (routers twoPendingWorld 0)) (resolvedSessionId ?m2) = Some ?s2"
    and p: "proxyConnection ?s2 = None"
    and i: "msg_id (patched id twoPendingWorld ?s2 ?m2) = Some 2"
    and c: "map_of (callbacks ?s2) 2 = Some \<lparr>callback = ClientCallback 8, methodName = ''DOM.enable''\<rparr>"
    by (simp_all add: twoPendingWorld_simps patched_def)
  have tr: "filter isInvocation (trace twoPendingWorld) = []"
    by (simp add: twoPendingWorld_def oneSessionWorld_simps)
  have fw: "fold (execCommand id) crossTraffic ?w1 = onMessage id 0 ?m2 twoPendingWorld"
    by (simp add: crossTraffic_def twoPendingWorld_def)
  have w2: "filter isInvocation (trace (fold (execCommand id) crossTraffic ?w1)) =
      [CallbackInvoked (ClientCallback 8) JNull JNull]"
    unfolding fw onMessage_response[OF l p i] onResponse_known_id(4)[OF c]
    by (simp add: tr patched_def twoPendingWorld_simps orNull_def)
  have px: "map_of (sessions (routers proxyWorld 0)) ''p'' =
     Some \<lparr>target = 1, callbacks = [], proxyConnection = Some (Connection 5 True)\<rparr>"
    by (simp add: proxyWorld_simps)
  from reply_reaches_its_callback[OF h1 h2 h3 h4 h5, of "''Page''" "''Page.enable''" JNull
         "ClientCallback 7", THEN conjunct2, THEN conjunct2, rule_format,
         of proxyWorld 0 "replyTo ''p'' 1 JUndefined JNull"
            "\<lparr>target = 1, callbacks = [], proxyConnection = Some (Connection 5 True)\<rparr>"] px
  have pr: "routers (onMessage id 0 (replyTo ''p'' 1 JUndefined JNull) proxyWorld) = routers proxyWorld"
    by simp
  have "list_all isTraffic crossTraffic"
       "\<not> list_ex (answers id oneSessionWorld ?s 0 ''s'' 1) crossTraffic"
    by (simp_all add: crossTraffic_def patched_def oneSessionWorld_simps)
  with h1 h0 t w2 px pr show ?thesis
    by (simp add: patched_def oneSessionWorld_simps orNull_def)
qed

text \<open>
  The claim as it was stated fails for a registered session that holds a proxy
  connection: the call stores its callback and is sent, but the response with its id is
  left to the proxy; no callback is called and the callback stays in the map of the
  session.
\<close>

theorem reply_reaches_its_callback_counterexample:
  "map_of (sessions (routers proxiedSessionWorld 0)) ''p'' =
     Some \<lparr>target = 1, callbacks = [], proxyConnection = Some (Connection 5 True)\<rparr> \<and>
   lastMessageId (routers proxiedSessionWorld 0) = 1 \<and>
   (let w1 = sendMessage 0 ''p'' ''Page'' ''Page.enable'' JNull (ClientCallback 7)
               proxiedSessionWorld;
        w2 = onMessage id 0 (replyTo ''p'' 1 JUndefined (JObj [])) w1
    in map_of (sessions (routers w1 0)) ''p'' =
         Some \<lparr>target = 1,
               callbacks = [(1, \<lparr>callback = ClientCallback 7, methodName = ''Page.enable''\<rparr>)],
               proxyConnection = Some (Connection 5 True)\<rparr>
     \<and> filter isInvocation (trace w2) = []
     \<and> trace w2 = trace w1 @ [ProxyMessage (Connection 5 True) (replyTo ''p'' 1 JUndefined (JObj []))]
     \<and> sessions (routers w2 0) = sessions (routers w1 0))"
proof -
  let ?w1 = "sendMessage 0 ''p'' ''Page'' ''Page.enable'' JNull (ClientCallback 7) proxiedSessionWorld"
  let ?m = "replyTo ''p'' 1 JUndefined (JObj [])"
  let ?s1 = "\<lparr>target = 1,
               callbacks = [(1, \<lparr>callback = ClientCallback 7, methodName = ''Page.enable''\<rparr>)],
               proxyConnection = Some (Connection 5 True)\<rparr>"
  have ss: "sessions (routers ?w1 0) =
      [(''s'', \<lparr>target = 0, callbacks = [], proxyConnection = None\<rparr>), (''p'', ?s1)]"
    by (simp add: sent_def Let_def proxiedSessionWorld_simps)
  then have l: "map_of (sessions (routers ?w1 0)) ''p'' = Some ?s1" by simp
  then have "map_of (sessions (routers ?w1 0)) (resolvedSessionId ?m) = Some ?s1" by simp
  from onMessage_proxy_session[OF this, of id]
  have om: "onMessage id 0 ?m ?w1 = afterFanout 0 ?m ?w1" by simp
  have tr: "trace (afterFanout 0 ?m ?w1) = trace ?w1 @ [ProxyMessage (Connection 5 True) ?m]"
    unfolding afterFanout_simps ss by (simp add: proxyFanout_def)
  have t1: "filter isInvocation (trace ?w1) = []"
    by (simp add: proxiedSessionWorld_simps)
  have a: "filter isInvocation (trace (onMessage id 0 ?m ?w1)) = []"
    unfolding om tr using t1 by simp
  have b: "trace (onMessage id 0 ?m ?w1) = trace ?w1 @ [ProxyMessage (Connection 5 True) ?m]"
    unfolding om by (rule tr)
  have c: "sessions (routers (onMessage id 0 ?m ?w1) 0) = sessions (routers ?w1 0)"
    unfolding om by (simp del: sendMessage_frame)
  have p: "map_of (sessions (routers proxiedSessionWorld 0)) ''p'' =
     Some \<lparr>target = 1, callbacks = [], proxyConnection = Some (Connection 5 True)\<rparr>"
      "lastMessageId (routers proxiedSessionWorld 0) = 1"
    by (simp_all add: proxiedSessionWorld_simps)
  from p l a b c show ?thesis unfolding Let_def by blast
qed

section \<open>Requests that the count never forgets\<close>

lemma idsOf_simps [simp]:
  "idsOf [] = []"
  "idsOf ((k, s) # al) = map fst (callbacks s) @ idsOf al"
  "idsOf (al @ bl) = idsOf al @ idsOf bl"
  by (simp_all add: idsOf_def)

lemma update_present:
  "map_of al k = Some s \<Longrightarrow>
   \<exists>pre post. al = pre @ (k, s) # post \<and> k \<notin> fst ` set pre \<and> AList.update k s' al = pre @ (k, s') # post"
proof (induction al)
  case Nil
  then show ?case by simp
next
  case (Cons p al)
  obtain k' v where p: "p = (k', v)" by (cases p)
  show ?case
  proof (cases "k' = k")
    case True
    with Cons.prems p have "v = s" by simp
    with True p show ?thesis by (intro exI[of _ "[]"] exI[of _ al]) simp
  next
    case False
    with Cons.prems p have "map_of al k = Some s" by simp
    from Cons.IH[OF this] obtain pre post where
      "al = pre @ (k, s) # post" "k \<notin> fst ` set pre" "AList.update k s' al = pre @ (k, s') # post"
      by blast
    with False p show ?thesis
      by (intro exI[of _ "(k', v) # pre"] exI[of _ post]) auto
  qed
qed

lemma update_absent:
  "map_of al k = None \<Longrightarrow> AList.update k s' al = al @ [(k, s')]"
  by (induction al) (auto split: if_splits)

lemma delete_absent: "k \<notin> fst ` set al \<Longrightarrow> AList.delete k al = al"
  by simp

lemma idsOf_delete_subset: "set (idsOf (AList.delete k al)) \<subseteq> set (idsOf al)"
  by (induction al) auto

lemma idsOf_delete_distinct: "distinct (idsOf al) \<Longrightarrow> distinct (idsOf (AList.delete k al))"
proof (induction al)
  case Nil
  then show ?case by simp
next
  case (Cons p al)
  obtain k' v where p: "p = (k', v)" by (cases p)
  with Cons idsOf_delete_subset[of k al] show ?case by (auto simp: p)
qed

lemma idsOf_delete_disjoint:
  assumes "map_of al k = Some s" "distinct (idsOf al)"
  shows "set (idsOf (AList.delete k al)) \<inter> fst ` set (callbacks s) = {}"
proof -
  from update_present[OF assms(1), of s] obtain pre post where
    al: "al = pre @ (k, s) # post" and k: "k \<notin> fst ` set pre" by blast
  have "AList.delete k (pre @ (k, s) # post) = AList.delete k pre @ AList.delete k post"
    by (simp add: AList.delete_eq)
  moreover have "AList.delete k pre = pre"
    using k by simp
  ultimately have "AList.delete k al = pre @ AList.delete k post"
    by (simp add: al)
  with assms(2) idsOf_delete_subset[of k post] show ?thesis
    by (auto simp: al)
qed


lemma storedIds_sent:
  assumes "wellFormed r"
  shows "set (storedIds (sent sid meth cb r)) =
           (if map_of (sessions r) sid = None then set (storedIds r)
            else insert (lastMessageId r) (set (storedIds r)))
         \<and> distinct (storedIds (sent sid meth cb r))"
proof (cases "map_of (sessions r) sid")
  case None
  with assms show ?thesis
    by (simp add: storedIds_def sent_sessions wellFormed_def)
next
  case (Some session)
  let ?n = "lastMessageId r"
  let ?s' = "session\<lparr>callbacks := AList.update ?n \<lparr>callback = cb, methodName = meth\<rparr> (callbacks session)\<rparr>"
  from update_present[OF Some, of ?s'] obtain pre post where
    al: "sessions r = pre @ (sid, session) # post"
    and up: "AList.update sid ?s' (sessions r) = pre @ (sid, ?s') # post" by blast
  from assms have fresh: "?n \<notin> set (storedIds r)" and d: "distinct (storedIds r)"
    by (auto simp: wellFormed_def)
  from fresh have nk: "?n \<notin> fst ` set (callbacks session)"
    by (auto simp: storedIds_def al)
  then have keys: "map fst (callbacks ?s') = map fst (callbacks session) @ [?n]"
    by (simp add: update_keys)
  have ids: "storedIds (sent sid meth cb r) =
      idsOf pre @ map fst (callbacks session) @ [?n] @ idsOf post"
    using Some keys by (simp add: storedIds_def sent_sessions up)
  have ids0: "storedIds r = idsOf pre @ map fst (callbacks session) @ idsOf post"
    by (simp add: storedIds_def al)
  from fresh d Some show ?thesis
    unfolding ids by (auto simp: ids0)
qed

lemma storedIds_answered:
  assumes "wellFormed r" "map_of (sessions r) sid = Some session" "map_of (callbacks session) i = Some c"
  shows "set (storedIds (answered sid session i r)) = set (storedIds r) - {i}
         \<and> distinct (storedIds (answered sid session i r)) \<and> i \<in> set (storedIds r)"
proof -
  let ?s' = "session\<lparr>callbacks := AList.delete i (callbacks session)\<rparr>"
  from update_present[OF assms(2), of ?s'] obtain pre post where
    al: "sessions r = pre @ (sid, session) # post"
    and up: "AList.update sid ?s' (sessions r) = pre @ (sid, ?s') # post" by blast
  from assms(1) have d: "distinct (storedIds r)" by (simp add: wellFormed_def)
  have ik: "i \<in> set (map fst (callbacks session))"
    using assms(3) by (metis map_of_SomeD set_map image_eqI fst_conv)
  have ids0: "storedIds r = idsOf pre @ map fst (callbacks session) @ idsOf post"
    by (simp add: storedIds_def al)
  have ids: "storedIds (answered sid session i r) =
      idsOf pre @ removeAll i (map fst (callbacks session)) @ idsOf post"
    by (simp add: storedIds_def up delete_keys)
  from d ik show ?thesis
    unfolding ids ids0 by (auto simp: distinct_removeAll)
qed

lemma storedIds_register:
  "set (idsOf (AList.update sid \<lparr>target = tgt, callbacks = [], proxyConnection = proxy\<rparr> al)) \<subseteq> set (idsOf al)
   \<and> (distinct (idsOf al) \<longrightarrow>
        distinct (idsOf (AList.update sid \<lparr>target = tgt, callbacks = [], proxyConnection = proxy\<rparr> al)))"
proof (cases "map_of al sid")
  case None
  then show ?thesis by (simp add: update_absent)
next
  case (Some session)
  from update_present[OF Some, of "\<lparr>target = tgt, callbacks = [], proxyConnection = proxy\<rparr>"]
  obtain pre post where "al = pre @ (sid, session) # post"
    "AList.update sid \<lparr>target = tgt, callbacks = [], proxyConnection = proxy\<rparr> al =
       pre @ (sid, \<lparr>target = tgt, callbacks = [], proxyConnection = proxy\<rparr>) # post"
    by blast
  then show ?thesis by auto
qed

lemma lost_mono_stored:
  assumes "finite L" "S' \<subseteq> S" "finite S"
  shows "int (card (S' - L)) \<le> int (card (S - L))"
  using assms by (simp add: card_mono Diff_mono)

lemma step_sent:
  assumes "wellFormed r"
  shows "wellFormed (sent sid meth cb r)"
    and "lost r \<le> lost (sent sid meth cb r)"
    and "map_of (sessions r) sid = None \<Longrightarrow> meth \<notin> LongPollingMethods \<Longrightarrow>
           lost (sent sid meth cb r) = lost r + 1"
proof -
  let ?n = "lastMessageId r"
  let ?L = "pendingLongPollingMessageIds r"
  let ?S = "set (storedIds r)"
  from assms have fin: "finite ?L" and nL: "?n \<notin> ?L" and nS: "?n \<notin> ?S"
    and bL: "\<forall>i \<in> ?L. i < ?n" and bS: "\<forall>i \<in> ?S. i < ?n"
    by (auto simp: wellFormed_def)
  note st = storedIds_sent[OF assms, of sid meth cb]
  show "wellFormed (sent sid meth cb r)"
    using st fin bL bS by (auto simp: wellFormed_def less_Suc_eq)
  have e1: "insert ?n ?S - insert ?n ?L = ?S - ?L" using nS by auto
  have e2: "?S - insert ?n ?L = ?S - ?L" using nS by auto
  have e3: "insert ?n ?S - ?L = insert ?n (?S - ?L)" using nL by auto
  have c3: "card (insert ?n (?S - ?L)) = Suc (card (?S - ?L))"
    using nS by simp
  show "lost r \<le> lost (sent sid meth cb r)"
    using st fin nL by (auto simp: lost_def e1 e2 e3 c3)
  show "lost (sent sid meth cb r) = lost r + 1"
    if "map_of (sessions r) sid = None" "meth \<notin> LongPollingMethods"
    using st that by (simp add: lost_def)
qed

lemma step_answered:
  assumes "wellFormed r" "map_of (sessions r) sid = Some session" "map_of (callbacks session) i = Some c"
  shows "wellFormed (answered sid session i r)"
    and "lost (answered sid session i r) = lost r"
proof -
  let ?L = "pendingLongPollingMessageIds r"
  let ?S = "set (storedIds r)"
  from assms(1) have fin: "finite ?L"
    and bL: "\<forall>i \<in> ?L. i < lastMessageId r" and bS: "\<forall>i \<in> ?S. i < lastMessageId r"
    by (auto simp: wellFormed_def)
  note st = storedIds_answered[OF assms]
  show "wellFormed (answered sid session i r)"
    using st fin bL bS by (auto simp: wellFormed_def)
  have e: "(?S - {i}) - (?L - {i}) = (?S - ?L) - {i}" by auto
  show "lost (answered sid session i r) = lost r"
  proof (cases "i \<in> ?L")
    case True
    then have "(?S - ?L) - {i} = ?S - ?L" by auto
    moreover from True fin have "card ?L > 0" by (auto simp: card_gt_0_iff)
    ultimately show ?thesis
      using st True fin by (simp add: lost_def e)
  next
    case False
    with st have iSL: "i \<in> ?S - ?L" by simp
    have "?S - {i} - ?L = (?S - ?L) - {i}" by auto
    with iSL have "card (?S - {i} - ?L) = card (?S - ?L) - 1" "card (?S - ?L) > 0"
      by (auto simp: card_gt_0_iff)
    with st False show ?thesis
      by (simp add: lost_def)
  qed
qed

lemma step_register:
  assumes "wellFormed r"
  shows "wellFormed (r\<lparr>sessions := AList.update sid \<lparr>target = tgt, callbacks = [], proxyConnection = proxy\<rparr> (sessions r)\<rparr>)"
    and "lost r \<le> lost (r\<lparr>sessions := AList.update sid \<lparr>target = tgt, callbacks = [], proxyConnection = proxy\<rparr> (sessions r)\<rparr>)"
proof -
  note st = storedIds_register[of sid tgt proxy "sessions r"]
  from assms have fin: "finite (pendingLongPollingMessageIds r)" by (simp add: wellFormed_def)
  show "wellFormed (r\<lparr>sessions := AList.update sid \<lparr>target = tgt, callbacks = [], proxyConnection = proxy\<rparr> (sessions r)\<rparr>)"
    using assms st by (auto simp: wellFormed_def storedIds_def)
  show "lost r \<le> lost (r\<lparr>sessions := AList.update sid \<lparr>target = tgt, callbacks = [], proxyConnection = proxy\<rparr> (sessions r)\<rparr>)"
    using lost_mono_stored[OF fin, of "set (idsOf (AList.update sid \<lparr>target = tgt, callbacks = [], proxyConnection = proxy\<rparr> (sessions r)))" "set (idsOf (sessions r))"] st
    by (simp add: lost_def storedIds_def)
qed

lemma step_unregister:
  assumes "wellFormed r"
  shows "wellFormed (r\<lparr>sessions := AList.delete sid (sessions r)\<rparr>)"
    and "lost r \<le> lost (r\<lparr>sessions := AList.delete sid (sessions r)\<rparr>)"
    and "map_of (sessions r) sid = Some session \<Longrightarrow> map_of (callbacks session) i = Some c \<Longrightarrow>
         i \<notin> pendingLongPollingMessageIds r \<Longrightarrow>
           lost r + 1 \<le> lost (r\<lparr>sessions := AList.delete sid (sessions r)\<rparr>)"
proof -
  let ?L = "pendingLongPollingMessageIds r"
  let ?S = "set (idsOf (sessions r))"
  let ?S' = "set (idsOf (AList.delete sid (sessions r)))"
  from assms have fin: "finite ?L" and d: "distinct (idsOf (sessions r))"
    by (simp_all add: wellFormed_def storedIds_def)
  show "wellFormed (r\<lparr>sessions := AList.delete sid (sessions r)\<rparr>)"
    using assms idsOf_delete_subset[of sid "sessions r"] idsOf_delete_distinct[OF d, of sid]
    by (auto simp: wellFormed_def storedIds_def)
  show "lost r \<le> lost (r\<lparr>sessions := AList.delete sid (sessions r)\<rparr>)"
    using lost_mono_stored[OF fin idsOf_delete_subset[of sid "sessions r"]]
    by (simp add: lost_def storedIds_def)
  show "lost r + 1 \<le> lost (r\<lparr>sessions := AList.delete sid (sessions r)\<rparr>)"
    if s: "map_of (sessions r) sid = Some session" and c: "map_of (callbacks session) i = Some c"
      and nl: "i \<notin> ?L"
  proof -
    have ik: "i \<in> fst ` set (callbacks session)"
      using c by (metis map_of_SomeD image_eqI fst_conv)
    from update_present[OF s, of session] obtain pre post where
      al: "sessions r = pre @ (sid, session) # post" by blast
    from ik have iS: "i \<in> ?S" by (auto simp: al)
    from idsOf_delete_disjoint[OF s d] ik have iS': "i \<notin> ?S'" by auto
    have "?S' - ?L \<subseteq> (?S - ?L) - {i}"
      using idsOf_delete_subset[of sid "sessions r"] iS' by auto
    then have "card (?S' - ?L) \<le> card ((?S - ?L) - {i})"
      by (intro card_mono) auto
    moreover have "card ((?S - ?L) - {i}) = card (?S - ?L) - 1" "card (?S - ?L) > 0"
      using iS nl by (auto simp: card_gt_0_iff)
    ultimately show ?thesis
      by (simp add: lost_def storedIds_def)
  qed
qed


lemma keeps_refl [simp]: "keeps w w"
  by (simp add: keeps_def)

lemma keeps_trans: "keeps w w' \<Longrightarrow> keeps w' w'' \<Longrightarrow> keeps w w''"
  unfolding keeps_def by (meson order_trans)

lemma keeps_same: "routers w' = routers w \<Longrightarrow> keeps w w'"
  by (simp add: keeps_def)

lemma keeps_update:
  assumes "routers w' = (routers w)(this := r')"
      and "wellFormed (routers w this) \<Longrightarrow> wellFormed r' \<and> lost (routers w this) \<le> lost r'"
  shows "keeps w w'"
  using assms by (auto simp: keeps_def)

lemma wellFormed_pendingScripts [simp]:
  "wellFormed (r\<lparr>pendingScripts := x\<rparr>) = wellFormed r"
  "lost (r\<lparr>pendingScripts := x\<rparr>) = lost r"
  by (simp_all add: wellFormed_def lost_def storedIds_def)

lemma keeps_execCommand: "keeps w (execCommand patch c w)"
proof (cases c)
  case (RegisterSession this tgt sid proxy)
  then show ?thesis
    by (auto intro!: keeps_update[where this = this] simp: step_register)
next
  case (UnregisterSession this sid)
  show ?thesis
  proof (cases "map_of (sessions (routers w this)) sid")
    case None
    with UnregisterSession show ?thesis by (simp add: keeps_same)
  next
    case (Some session)
    with UnregisterSession show ?thesis
      by (auto intro!: keeps_update[where this = this] simp: step_unregister)
  qed
next
  case (SendMessage this sid domain meth params cb)
  then show ?thesis
    by (auto intro!: keeps_update[where this = this] simp: step_sent)
next
  case (OnMessage this m)
  from onMessage_routers[of patch this m w] show ?thesis
  proof
    assume "routers (onMessage patch this m w) = routers w"
    with OnMessage show ?thesis by (simp add: keeps_same)
  next
    assume "\<exists>session i c. map_of (sessions (routers w this)) (resolvedSessionId m) = Some session
       \<and> proxyConnection session = None
       \<and> msg_id (patched patch w session m) = Some i
       \<and> map_of (callbacks session) i = Some c
       \<and> routers (onMessage patch this m w) =
            (routers w)(this := answered (resolvedSessionId m) session i (routers w this))"
    then obtain session i c where
      "map_of (sessions (routers w this)) (resolvedSessionId m) = Some session"
      "map_of (callbacks session) i = Some c"
      "routers (onMessage patch this m w) =
            (routers w)(this := answered (resolvedSessionId m) session i (routers w this))"
      by blast
    with OnMessage show ?thesis
      by (auto intro!: keeps_update[where this = this] simp: step_answered)
  qed
next
  case (RunAfterPendingDispatches this s)
  then show ?thesis
    by (auto intro!: keeps_update[where this = this])
qed

lemma keeps_fold:
  assumes "\<And>x v. keeps v (f x v)"
  shows "keeps w (fold f xs w)"
proof (induction xs arbitrary: w)
  case Nil
  show ?case by simp
next
  case (Cons x xs)
  from assms[of w x] Cons[of "f x w"] show ?case
    by (auto intro: keeps_trans)
qed

lemma keeps_runScript: "keeps w (runScript patch s w)"
proof (cases s)
  case (Script l cs)
  have "keeps w (emit (ScriptRun l) w)" by (simp add: keeps_same)
  moreover have "keeps (emit (ScriptRun l) w) (fold (execCommand patch) cs (emit (ScriptRun l) w))"
    by (rule keeps_fold) (rule keeps_execCommand)
  ultimately show ?thesis using Script by (auto intro: keeps_trans)
qed

lemma keeps_executeAfterPendingDispatches: "keeps w (executeAfterPendingDispatches patch this w)"
proof (cases "hasOutstandingNonLongPollingRequests (routers w this)")
  case True
  then show ?thesis by (simp add: executeAfterPendingDispatches_def)
next
  case False
  let ?w0 = "updateRouter this (\<lambda>r. r\<lparr>pendingScripts := []\<rparr>) w"
  have "keeps w ?w0" by (auto intro!: keeps_update[where this = this])
  moreover have "keeps ?w0 (fold (runScript patch) (pendingScripts (routers w this)) ?w0)"
    by (rule keeps_fold) (rule keeps_runScript)
  ultimately show ?thesis
    using False by (auto simp: executeAfterPendingDispatches_def Let_def intro: keeps_trans)
qed

lemma keeps_runTask: "keeps w (runTask patch t w)"
proof (cases t)
  case (CallbackTimer cb e)
  then show ?thesis by (simp add: keeps_same)
next
  case (DrainTimer this)
  then show ?thesis
    by (auto simp: keeps_executeAfterPendingDispatches intro: keeps_same)
qed

lemma keeps_tick: "keeps w (tick patch w)"
proof (cases "tasks w")
  case Nil
  then show ?thesis by (simp add: tick_def)
next
  case (Cons t ts)
  have "keeps w (w\<lparr>tasks := ts\<rparr>)" by (simp add: keeps_same)
  with keeps_runTask[of "w\<lparr>tasks := ts\<rparr>" patch t] Cons show ?thesis
    by (auto simp: tick_def intro: keeps_trans)
qed

lemma keeps_exec: "keeps w (exec patch x w)"
  by (cases x) (simp_all add: keeps_execCommand keeps_tick)

lemma keeps_run: "keeps w (run patch ops w)"
  unfolding run_def by (rule keeps_fold) (rule keeps_exec)

lemma lost_outstanding: "1 \<le> lost r \<Longrightarrow> hasOutstandingNonLongPollingRequests r"
  by (simp add: lost_def hasOutstandingNonLongPollingRequests_def)

lemma wellFormed_newRouter: "wellFormed (newRouter c) \<and> lost (newRouter c) = 0"
  by (simp add: wellFormed_def lost_def newRouter_def storedIds_def)

lemma reachable_wellFormed:
  "routers w this = newRouter c \<Longrightarrow>
   wellFormed (routers (run patch ops w) this) \<and> 0 \<le> lost (routers (run patch ops w) this)"
  using keeps_run[of w patch ops, unfolded keeps_def, rule_format, of this]
        wellFormed_newRouter[of c]
  by simp

lemma blocked_forever:
  assumes "wellFormed (routers w' this)" "1 \<le> lost (routers w' this)"
  shows "hasOutstandingNonLongPollingRequests (routers (run patch ops w') this)
       \<and> executeAfterPendingDispatches patch this (run patch ops w') = run patch ops w'
       \<and> runTask patch (DrainTimer this) (run patch ops w') = setTimeout (DrainTimer this) (run patch ops w')"
proof -
  from keeps_run[of w' patch ops] assms have "1 \<le> lost (routers (run patch ops w') this)"
    by (auto simp: keeps_def)
  then have "hasOutstandingNonLongPollingRequests (routers (run patch ops w') this)"
    by (rule lost_outstanding)
  then show ?thesis
    by (simp add: executeAfterPendingDispatches_def deprecatedRunAfterPendingDispatches_def)
qed

lemma count_decreases_only_on_response:
  assumes "pendingResponsesCount (routers (execCommand patch c w) a) < pendingResponsesCount (routers w a)"
  shows "\<exists>m session i cb. c = OnMessage a m
           \<and> map_of (sessions (routers w a)) (resolvedSessionId m) = Some session
           \<and> msg_id (patched patch w session m) = Some i
           \<and> map_of (callbacks session) i = Some cb"
proof (cases c)
  case (RegisterSession this tgt sid proxy)
  with assms show ?thesis by (auto split: if_splits)
next
  case (UnregisterSession this sid)
  with assms show ?thesis by (auto split: if_splits option.splits)
next
  case (SendMessage this sid domain meth params cb)
  with assms show ?thesis by (auto split: if_splits)
next
  case (OnMessage this m)
  from onMessage_routers[of patch this m w] show ?thesis
  proof
    assume "routers (onMessage patch this m w) = routers w"
    with OnMessage assms show ?thesis by simp
  next
    assume "\<exists>session i c. map_of (sessions (routers w this)) (resolvedSessionId m) = Some session
       \<and> proxyConnection session = None
       \<and> msg_id (patched patch w session m) = Some i
       \<and> map_of (callbacks session) i = Some c
       \<and> routers (onMessage patch this m w) =
            (routers w)(this := answered (resolvedSessionId m) session i (routers w this))"
    with OnMessage assms show ?thesis by (auto split: if_splits)
  qed
next
  case (RunAfterPendingDispatches this s)
  with assms show ?thesis by (auto split: if_splits)
qed

text \<open>
  C9. In a world whose router is well formed and has lost no request so far (as every
  router is that the constructor has made, whatever has happened since):
  a call on a router lowers its count of pending responses only when it is an incoming
  message whose session holds a callback under the id of the message. \<^verbatim>\<open>sendMessage\<close> to a
  session id that the router does not hold raises the count by one, puts the id in the
  long-polling set when the method is a long-polling one, leaves the sessions as they are
  (no callback is stored), sends nothing and queues nothing; when the method is not a
  long-polling one, then after whatever calls and turns of the event loop follow,
  \<^verbatim>\<open>_hasOutstandingNonLongPollingRequests\<close> is true, \<^verbatim>\<open>_executeAfterPendingDispatches\<close>
  does nothing and the timer of the drain barrier only queues itself again.
  \<^verbatim>\<open>unregisterSession\<close> leaves the count as it is, and when the session held a callback
  under an id that is not a long-polling id the same holds for ever after.
\<close>

theorem lost_request_blocks_drain:
  assumes "wellFormed (routers w this)" and "0 \<le> lost (routers w this)"
  shows
    "(\<forall>c a. pendingResponsesCount (routers (execCommand patch c w) a)
                < pendingResponsesCount (routers w a) \<longrightarrow>
         (\<exists>m session i cb. c = OnMessage a m
            \<and> map_of (sessions (routers w a)) (resolvedSessionId m) = Some session
            \<and> msg_id (patched patch w session m) = Some i
            \<and> map_of (callbacks session) i = Some cb))
     \<and> (map_of (sessions (routers w this)) sid = None \<longrightarrow>
          (let w' = sendMessage this sid domain meth params cb w
           in pendingResponsesCount (routers w' this) = pendingResponsesCount (routers w this) + 1
            \<and> pendingLongPollingMessageIds (routers w' this) =
                 (if meth \<in> LongPollingMethods
                  then insert (lastMessageId (routers w this))
                         (pendingLongPollingMessageIds (routers w this))
                  else pendingLongPollingMessageIds (routers w this))
            \<and> sessions (routers w' this) = sessions (routers w this)
            \<and> trace w' = trace w \<and> tasks w' = tasks w
            \<and> (meth \<notin> LongPollingMethods \<longrightarrow>
                 (\<forall>ops. hasOutstandingNonLongPollingRequests (routers (run patch ops w') this)
                      \<and> executeAfterPendingDispatches patch this (run patch ops w') = run patch ops w'
                      \<and> runTask patch (DrainTimer this) (run patch ops w') =
                          setTimeout (DrainTimer this) (run patch ops w')))))
     \<and> (\<forall>session i c. map_of (sessions (routers w this)) sid = Some session
            \<and> map_of (callbacks session) i = Some c
            \<and> i \<notin> pendingLongPollingMessageIds (routers w this) \<longrightarrow>
          (let w' = unregisterSession this sid w
           in pendingResponsesCount (routers w' this) = pendingResponsesCount (routers w this)
            \<and> (\<forall>ops. hasOutstandingNonLongPollingRequests (routers (run patch ops w') this)
                     \<and> executeAfterPendingDispatches patch this (run patch ops w') = run patch ops w'
                     \<and> runTask patch (DrainTimer this) (run patch ops w') =
                         setTimeout (DrainTimer this) (run patch ops w'))))"
proof (intro conjI allI impI)
  fix c a
  assume "pendingResponsesCount (routers (execCommand patch c w) a) < pendingResponsesCount (routers w a)"
  then show "\<exists>m session i cb. c = OnMessage a m
            \<and> map_of (sessions (routers w a)) (resolvedSessionId m) = Some session
            \<and> msg_id (patched patch w session m) = Some i
            \<and> map_of (callbacks session) i = Some cb"
    by (rule count_decreases_only_on_response)
next
  assume none: "map_of (sessions (routers w this)) sid = None"
  let ?w' = "sendMessage this sid domain meth params cb w"
  have r: "routers ?w' this = sent sid meth cb (routers w this)" by simp
  have tr: "trace ?w' = trace w" "tasks ?w' = tasks w"
    using none by (simp_all add: sendMessage_def Let_def)
  have f1: "pendingResponsesCount (routers ?w' this) = pendingResponsesCount (routers w this) + 1"
    by (simp add: r)
  have f2: "pendingLongPollingMessageIds (routers ?w' this) =
                 (if meth \<in> LongPollingMethods
                  then insert (lastMessageId (routers w this))
                         (pendingLongPollingMessageIds (routers w this))
                  else pendingLongPollingMessageIds (routers w this))"
    by (simp add: r)
  have f3: "sessions (routers ?w' this) = sessions (routers w this)"
    using none by (simp add: r sent_sessions)
  have blocked: "hasOutstandingNonLongPollingRequests (routers (run patch ops ?w') this)
                      \<and> executeAfterPendingDispatches patch this (run patch ops ?w') = run patch ops ?w'
                      \<and> runTask patch (DrainTimer this) (run patch ops ?w') =
                          setTimeout (DrainTimer this) (run patch ops ?w')"
    if "meth \<notin> LongPollingMethods" for ops
  proof (rule blocked_forever)
    show "wellFormed (routers ?w' this)" using assms(1) by (simp add: step_sent)
    show "1 \<le> lost (routers ?w' this)"
      using step_sent(3)[OF assms(1) none that, of cb] assms(2) by simp
  qed
  show "let w' = sendMessage this sid domain meth params cb w
           in pendingResponsesCount (routers w' this) = pendingResponsesCount (routers w this) + 1
            \<and> pendingLongPollingMessageIds (routers w' this) =
                 (if meth \<in> LongPollingMethods
                  then insert (lastMessageId (routers w this))
                         (pendingLongPollingMessageIds (routers w this))
                  else pendingLongPollingMessageIds (routers w this))
            \<and> sessions (routers w' this) = sessions (routers w this)
            \<and> trace w' = trace w \<and> tasks w' = tasks w
            \<and> (meth \<notin> LongPollingMethods \<longrightarrow>
                 (\<forall>ops. hasOutstandingNonLongPollingRequests (routers (run patch ops w') this)
                      \<and> executeAfterPendingDispatches patch this (run patch ops w') = run patch ops w'
                      \<and> runTask patch (DrainTimer this) (run patch ops w') =
                          setTimeout (DrainTimer this) (run patch ops w')))"
    unfolding Let_def using f1 f2 f3 tr blocked by blast
next
  fix session i c
  assume h: "map_of (sessions (routers w this)) sid = Some session
            \<and> map_of (callbacks session) i = Some c
            \<and> i \<notin> pendingLongPollingMessageIds (routers w this)"
  let ?w' = "unregisterSession this sid w"
  have r: "routers ?w' this = (routers w this)\<lparr>sessions := AList.delete sid (sessions (routers w this))\<rparr>"
    using h by simp
  have g1: "pendingResponsesCount (routers ?w' this) = pendingResponsesCount (routers w this)"
    unfolding r by simp
  have blocked: "hasOutstandingNonLongPollingRequests (routers (run patch ops ?w') this)
                      \<and> executeAfterPendingDispatches patch this (run patch ops ?w') = run patch ops ?w'
                      \<and> runTask patch (DrainTimer this) (run patch ops ?w') =
                          setTimeout (DrainTimer this) (run patch ops ?w')" for ops
  proof (rule blocked_forever)
    show "wellFormed (routers ?w' this)" unfolding r using assms(1) by (rule step_unregister)
    show "1 \<le> lost (routers ?w' this)"
      unfolding r using step_unregister(3)[OF assms(1), of sid session i c] h assms(2) by simp
  qed
  show "let w' = unregisterSession this sid w
           in pendingResponsesCount (routers w' this) = pendingResponsesCount (routers w this)
            \<and> (\<forall>ops. hasOutstandingNonLongPollingRequests (routers (run patch ops w') this)
                     \<and> executeAfterPendingDispatches patch this (run patch ops w') = run patch ops w'
                     \<and> runTask patch (DrainTimer this) (run patch ops w') =
                         setTimeout (DrainTimer this) (run patch ops w'))"
    unfolding Let_def using g1 blocked by blast
qed


theorem lost_request_blocks_drain_witness:
  "wellFormed (routers oneSessionWorld 0) \<and> lost (routers oneSessionWorld 0) = 0 \<and>
   map_of (sessions (routers oneSessionWorld 0)) ''t'' = None \<and>
   ''Page.enable'' \<notin> LongPollingMethods \<and>
   hasOutstandingNonLongPollingRequests
     (routers (run id laterOps
        (sendMessage 0 ''t'' ''Page'' ''Page.enable'' JNull (ClientCallback 7) oneSessionWorld)) 0) \<and>
   wellFormed (routers twoPendingWorld 0) \<and> lost (routers twoPendingWorld 0) = 0 \<and>
   1 \<notin> pendingLongPollingMessageIds (routers twoPendingWorld 0) \<and>
   hasOutstandingNonLongPollingRequests
     (routers (run id laterOps (unregisterSession 0 ''s'' twoPendingWorld)) 0)"
proof -
  have a: "wellFormed (routers oneSessionWorld 0)" "lost (routers oneSessionWorld 0) = 0"
    by (simp_all add: wellFormed_def lost_def storedIds_def oneSessionWorld_simps)
  then have a0: "0 \<le> lost (routers oneSessionWorld 0)" by simp
  have b: "map_of (sessions (routers oneSessionWorld 0)) ''t'' = None"
          "''Page.enable'' \<notin> LongPollingMethods"
    by (simp_all add: oneSessionWorld_simps LongPollingMethods_def)
  have c: "wellFormed (routers twoPendingWorld 0)" "lost (routers twoPendingWorld 0) = 0"
    by (simp_all add: wellFormed_def lost_def storedIds_def twoPendingWorld_simps)
  then have c0: "0 \<le> lost (routers twoPendingWorld 0)" by simp
  let ?s = "\<lparr>target = 0,
              callbacks = [(1, \<lparr>callback = ClientCallback 7, methodName = ''Page.enable''\<rparr>),
                           (2, \<lparr>callback = ClientCallback 8, methodName = ''DOM.enable''\<rparr>)],
              proxyConnection = None\<rparr>"
  have d: "map_of (sessions (routers twoPendingWorld 0)) ''s'' = Some ?s
            \<and> map_of (callbacks ?s) 1 = Some \<lparr>callback = ClientCallback 7, methodName = ''Page.enable''\<rparr>
            \<and> 1 \<notin> pendingLongPollingMessageIds (routers twoPendingWorld 0)"
    by (simp add: twoPendingWorld_simps)
  note t1 = lost_request_blocks_drain[OF a(1) a0, of id "''t''" "''Page''" "''Page.enable''" JNull
              "ClientCallback 7", THEN conjunct2, THEN conjunct1, THEN mp, OF b(1), unfolded Let_def]
  note t2 = lost_request_blocks_drain[OF c(1) c0, of id "''s''" "''Page''" "''Page.enable''" JNull
              "ClientCallback 7", THEN conjunct2, THEN conjunct2, rule_format, OF d, unfolded Let_def]
  from t1 b(2) have e: "hasOutstandingNonLongPollingRequests
     (routers (run id laterOps
        (sendMessage 0 ''t'' ''Page'' ''Page.enable'' JNull (ClientCallback 7) oneSessionWorld)) 0)"
    by blast
  from t2 have f: "hasOutstandingNonLongPollingRequests
     (routers (run id laterOps (unregisterSession 0 ''s'' twoPendingWorld)) 0)"
    by blast
  from a b c d e f show ?thesis by blast
qed

section \<open>The constructor of TargetBase\<close>

lemma newTargetBase_rejected:
  assumes "(parentTarget = None \<and> conn \<noteq> None) \<or> (parentTarget = None \<and> sid \<noteq> [])
             \<or> (conn \<noteq> None \<and> sid \<noteq> [])"
  shows "newTargetBase factory patching parentTarget sid conn w =
     (Inl (Error ''Either connection or sessionId (but not both) must be supplied for a child target''), w)"
  using assms unfolding newTargetBase_def by (simp only: if_True)

lemma newTargetBase_built:
  assumes "\<not> ((parentTarget = None \<and> conn \<noteq> None) \<or> (parentTarget = None \<and> sid \<noteq> [])
             \<or> (conn \<noteq> None \<and> sid \<noteq> []))"
  shows "(newTargetBase factory patching parentTarget sid conn w =
            (Inl (TypeError ''_factory is not a function''), w) \<and> factory = None \<and> conn = None)
       \<or> (\<exists>w' r. newTargetBase factory patching parentTarget sid conn w = (Inr (nextTarget w), w')
            \<and> router (targets w' (nextTarget w)) = Some r
            \<and> sessionId (targets w' (nextTarget w)) = sid
            \<and> needsNodeJSPatching (targets w' (nextTarget w)) = patching
            \<and> map_of (sessions (routers w' r)) sid =
                 Some \<lparr>target = nextTarget w, callbacks = [], proxyConnection = None\<rparr>)"
proof -
  let ?parentRouter = "case parentTarget of None \<Rightarrow> None | Some parent \<Rightarrow> router (targets w parent)"
  let ?chosen = "(if sid \<noteq> [] \<and> parentTarget \<noteq> None \<and> ?parentRouter \<noteq> None
               then (case ?parentRouter of Some r \<Rightarrow> Some (r, w) | None \<Rightarrow> None)
               else (case conn of
                       Some c \<Rightarrow> Some (newSessionRouter c w)
                     | None \<Rightarrow> (case factory of
                                  Some c \<Rightarrow> Some (newSessionRouter c w)
                                | None \<Rightarrow> None)))"
  have eq: "newTargetBase factory patching parentTarget sid conn w =
     (case ?chosen of
        None \<Rightarrow> (Inl (TypeError ''_factory is not a function''), w)
      | Some (r, w1) \<Rightarrow>
          (Inr (nextTarget w),
           registerSession r (nextTarget w) sid None
             (w1\<lparr>targets := (targets w1)(nextTarget w :=
                     \<lparr>needsNodeJSPatching = patching, sessionId = sid, router = Some r\<rparr>),
                 nextTarget := nextTarget w + 1\<rparr>)))"
    using assms unfolding newTargetBase_def Let_def by (simp only: if_False)
  show ?thesis
  proof (cases ?chosen)
    case None
    then have "factory = None \<and> conn = None"
      by (auto split: if_splits option.splits)
    with None eq show ?thesis by simp
  next
    case (Some rw)
    obtain r w1 where rw: "rw = (r, w1)" by (cases rw)
    have "newTargetBase factory patching parentTarget sid conn w =
        (Inr (nextTarget w),
         registerSession r (nextTarget w) sid None
           (w1\<lparr>targets := (targets w1)(nextTarget w :=
                   \<lparr>needsNodeJSPatching = patching, sessionId = sid, router = Some r\<rparr>),
               nextTarget := nextTarget w + 1\<rparr>))"
      using eq Some rw by simp
    then show ?thesis
      by (intro disjI2) (simp add: update_conv')
  qed
qed

text \<open>
  C8 (amended). The constructor of \<^verbatim>\<open>TargetBase\<close> throws its error at once, with nothing
  registered and the world as it was, when a connection or a non-empty session id comes
  without a parent target, and when a connection and a non-empty session id come together.
  It accepts a target without parent, session id and connection (the connection then comes
  from the factory), a child with a connection and no session id, and a child with a
  session id and no connection: unless a connection is needed from a factory that has not
  been set, which is a TypeError before anything is registered, the new target knows its
  router and session id and the router holds a fresh session record for it.
\<close>

theorem newTargetBase_guard:
  "let (res, w') = newTargetBase factory patching parentTarget sid conn w
   in ((parentTarget = None \<and> conn \<noteq> None) \<or> (parentTarget = None \<and> sid \<noteq> [])
         \<or> (conn \<noteq> None \<and> sid \<noteq> []) \<longrightarrow>
         res = Inl (Error ''Either connection or sessionId (but not both) must be supplied for a child target'')
       \<and> w' = w)
    \<and> ((parentTarget = None \<and> sid = [] \<and> conn = None)
         \<or> (parentTarget \<noteq> None \<and> sid = [] \<and> conn \<noteq> None)
         \<or> (parentTarget \<noteq> None \<and> sid \<noteq> [] \<and> conn = None) \<longrightarrow>
         (res = Inl (TypeError ''_factory is not a function'') \<and> w' = w
            \<and> factory = None \<and> conn = None)
       \<or> (res = Inr (nextTarget w)
            \<and> (\<exists>r. router (targets w' (nextTarget w)) = Some r
                  \<and> sessionId (targets w' (nextTarget w)) = sid
                  \<and> map_of (sessions (routers w' r)) sid =
                       Some \<lparr>target = nextTarget w, callbacks = [], proxyConnection = None\<rparr>)))"
proof -
  let ?rej = "(parentTarget = None \<and> conn \<noteq> None) \<or> (parentTarget = None \<and> sid \<noteq> [])
         \<or> (conn \<noteq> None \<and> sid \<noteq> [])"
  show ?thesis
  proof (cases ?rej)
    case True
    from newTargetBase_rejected[OF True, of factory patching w] True show ?thesis
      by auto
  next
    case False
    from newTargetBase_built[OF False, of factory patching w] False show ?thesis
      by auto
  qed
qed


theorem newTargetBase_guard_witness:
  "newTargetBase (Some (Connection 9 True)) False None ''s'' None initialWorld =
     (Inl (Error ''Either connection or sessionId (but not both) must be supplied for a child target''),
      initialWorld) \<and>
   fst (newTargetBase (Some (Connection 9 True)) False None [] None initialWorld) = Inr 0 \<and>
   map_of (sessions (routers (snd (newTargetBase (Some (Connection 9 True)) False None [] None
                                      initialWorld)) 0)) [] =
     Some \<lparr>target = 0, callbacks = [], proxyConnection = None\<rparr>"
proof -
  let ?F = "Some (Connection 9 True)"
  obtain res1 w1 where e1: "newTargetBase ?F False None ''s'' None initialWorld = (res1, w1)"
    by (cases "newTargetBase ?F False None ''s'' None initialWorld")
  obtain res2 w2 where e2: "newTargetBase ?F False None [] None initialWorld = (res2, w2)"
    by (cases "newTargetBase ?F False None [] None initialWorld")
  from newTargetBase_guard[of ?F False None "''s''" None initialWorld] e1
  have a: "res1 = Inl (Error ''Either connection or sessionId (but not both) must be supplied for a child target'')"
       "w1 = initialWorld"
    by simp_all
  have nt: "nextTarget initialWorld = 0" by (simp add: initialWorld_def)
  from newTargetBase_guard[of ?F False None "[]" None initialWorld] e2
  have "res2 = Inr 0 \<and> (\<exists>r. router (targets w2 0) = Some r
            \<and> map_of (sessions (routers w2 r)) [] =
                 Some \<lparr>target = 0, callbacks = [], proxyConnection = None\<rparr>)"
    by (auto simp: nt)
  moreover have "router (targets w2 0) = Some 0"
    using e2 by (auto simp: newTargetBase_def newSessionRouter_def initialWorld_def Let_def)
  ultimately have b: "res2 = Inr 0"
      "map_of (sessions (routers w2 0)) [] = Some \<lparr>target = 0, callbacks = [], proxyConnection = None\<rparr>"
    by auto
  from a b e1 e2 show ?thesis by simp
qed

text \<open>
  The claim as it was stated fails twice: a connection alone, without parent target, is
  refused, and a target with neither connection nor parent and session id is accepted.
\<close>

theorem newTargetBase_guard_counterexample:
  "fst (newTargetBase (Some (Connection 9 True)) False None [] (Some (Connection 1 True)) initialWorld) =
     Inl (Error ''Either connection or sessionId (but not both) must be supplied for a child target'') \<and>
   fst (newTargetBase (Some (Connection 9 True)) False None [] None initialWorld) = Inr 0"
  by (simp add: newTargetBase_def newSessionRouter_def initialWorld_def Let_def)

section \<open>Validation of the arguments of a command\<close>

lemma typeof_undefined [simp]: "typeof a = ''undefined'' \<longleftrightarrow> a = JUndefined"
  by (cases a) simp_all

lemma loop_valid:
  "validation ps args = None \<Longrightarrow>
   \<exists>v. prepareParametersLoop meth sig ps args params hasParams = ([], v)"
proof (induction ps arbitrary: args params hasParams)
  case Nil
  then show ?case by (simp split: if_splits)
next
  case (Cons p ps)
  show ?case
  proof (cases args)
    case Nil
    with Cons.prems have "optional p" "validation ps [] = None" by (simp_all split: if_splits)
    with Cons.IH[of "[]" params hasParams] Nil show ?thesis by simp
  next
    case (Cons a as)
    show ?thesis
    proof (cases "optional p \<and> a = JUndefined")
      case True
      with Cons.prems Cons have "validation ps as = None" by simp
      with Cons.IH[of as params hasParams] True Cons show ?thesis by simp
    next
      case False
      with Cons.prems Cons have t: "typeof a = type p" and v: "validation ps as = None"
        by (simp_all split: if_splits)
      from Cons.IH[OF v, of "AList.update (name p) a params" True] False t Cons show ?thesis
        by (auto simp: Let_def)
    qed
  qed
qed

lemma loop_invalid:
  "validation ps args = Some f \<Longrightarrow>
   \<exists>msg. prepareParametersLoop meth sig ps args params hasParams = ([msg], JNull) \<and> msg \<noteq> []
        \<and> (f = MissingArgument \<longrightarrow> (\<exists>pre post. msg = pre @ sig @ post))"
proof (induction ps arbitrary: args params hasParams)
  case Nil
  then show ?case by (auto split: if_splits)
next
  case (Cons p ps)
  show ?case
  proof (cases args)
    case Nil
    show ?thesis
    proof (cases "optional p")
      case True
      with Cons.prems Nil have "validation ps [] = Some f" by simp
      with Cons.IH[of "[]" params hasParams] True Nil show ?thesis by simp
    next
      case False
      let ?X = "''Protocol Error: Invalid number of arguments for method '' @ quoted meth
                  @ '' call. '' @ ''It must have the following arguments ''"
      let ?Y = "[CHR 0x27] @ ''.''"
      have eq: "prepareParametersLoop meth sig (p # ps) args params hasParams =
                  ([?X @ sig @ ?Y], JNull)"
        using False Nil by simp
      show ?thesis
      proof (rule exI[of _ "?X @ sig @ ?Y"], intro conjI impI)
        show "prepareParametersLoop meth sig (p # ps) args params hasParams =
                ([?X @ sig @ ?Y], JNull)"
          by (rule eq)
        show "?X @ sig @ ?Y \<noteq> []" by simp
        show "\<exists>pre post. ?X @ sig @ ?Y = pre @ sig @ post"
          by (rule exI[of _ ?X], rule exI[of _ ?Y], rule refl)
      qed
    qed
  next
    case (Cons a as)
    show ?thesis
    proof (cases "optional p \<and> a = JUndefined")
      case True
      with Cons.prems Cons have "validation ps as = Some f" by simp
      with Cons.IH[of as params hasParams] True Cons show ?thesis by simp
    next
      case False
      note nf = this
      show ?thesis
      proof (cases "typeof a = type p")
        case True
        with Cons.prems Cons nf have v: "validation ps as = Some f" by (simp split: if_splits)
        from Cons.IH[OF v, of "AList.update (name p) a params" True] nf True Cons show ?thesis
          by (auto simp: Let_def)
      next
        case False
        with Cons.prems Cons nf have "f = WrongType (name p)" by (simp split: if_splits)
        with False nf Cons show ?thesis by (auto simp: Let_def)
      qed
    qed
  qed
qed


lemma prepareParameters_invalid:
  "validation parameters args = Some f \<Longrightarrow>
   \<exists>msg. prepareParameters stringify meth parameters args = ([msg], JNull) \<and> msg \<noteq> []
        \<and> (f = MissingArgument \<longrightarrow> (\<exists>pre post. msg = pre @ stringify parameters @ post))"
  unfolding prepareParameters_def by (rule loop_invalid)

lemma prepareParameters_valid:
  "validation parameters args = None \<Longrightarrow>
   \<exists>v. prepareParameters stringify meth parameters args = ([], v)"
  unfolding prepareParameters_def by (rule loop_valid)

lemma sendMessageToBackendPromise_invalid:
  assumes "prepareParameters stringify meth parameters args = ([msg], v)" "msg \<noteq> []"
  shows "sendMessageToBackendPromise stringify tgt domain replyArgs meth parameters args w =
           (nextPromise w,
            resolve (nextPromise w) JNull
              ((emit (ConsoleError msg) w)
                 \<lparr>promises := (promises w)(nextPromise w := Pending),
                  nextPromise := nextPromise w + 1\<rparr>))"
  using assms
  by (simp add: sendMessageToBackendPromise_def promiseResolve_def newPromise_def Let_def emit_def)

text \<open>
  C5 (amended). \<^verbatim>\<open>_prepareParameters\<close> takes the declared parameters in order. When no
  argument remains, a required parameter is a failure whose message contains the declared
  signature (\<^verbatim>\<open>JSON.stringify(parameters)\<close>) and an optional parameter is skipped. When the
  parameter is optional and its argument is undefined, the parameter is skipped and the
  argument is consumed. Otherwise one argument is consumed, and it is a failure when its
  \<^verbatim>\<open>typeof\<close> is not the declared type. Arguments left over after the last parameter are a
  failure. When the validation succeeds no error is reported. When it fails,
  \<^verbatim>\<open>_prepareParameters\<close> returns null and has given exactly one message to the error
  callback; the call writes that message to the console and does nothing else to its
  environment: its promise is resolved to null, no router changes (no id is used, no
  callback is stored), nothing is sent and no timer is queued.
\<close>

theorem argument_validation:
  "let (errors, params) = prepareParameters stringify meth parameters args;
       (p, w') = sendMessageToBackendPromise stringify tgt domain replyArgs meth parameters args w
   in case validation parameters args of
        None \<Rightarrow> errors = []
      | Some failure \<Rightarrow>
          params = JNull
        \<and> (\<exists>message. errors = [message] \<and> trace w' = trace w @ [ConsoleError message]
              \<and> (failure = MissingArgument \<longrightarrow>
                   (\<exists>pre post. message = pre @ stringify parameters @ post)))
        \<and> promises w' p = Resolved JNull
        \<and> routers w' = routers w \<and> tasks w' = tasks w"
proof (cases "validation parameters args")
  case None
  from prepareParameters_valid[OF None, of stringify meth] None show ?thesis
    by (auto simp: split_def)
next
  case (Some f)
  from prepareParameters_invalid[OF Some, of stringify meth] obtain msg where
    pp: "prepareParameters stringify meth parameters args = ([msg], JNull)" and ne: "msg \<noteq> []"
    and sg: "f = MissingArgument \<longrightarrow> (\<exists>pre post. msg = pre @ stringify parameters @ post)"
    by blast
  note call = sendMessageToBackendPromise_invalid[OF pp ne, of tgt domain replyArgs w]
  show ?thesis
    using Some sg by (simp add: pp call resolve_def emit_def)
qed

theorem argument_validation_witness:
  "validation twoRequired [JNum 4] = Some MissingArgument \<and>
   (let (p, w') = sendMessageToBackendPromise (\<lambda>ps. ''[...]'') 0 ''DOM'' [''nodeId'']
                    ''DOM.querySelector'' twoRequired [JNum 4] oneSessionWorld
    in promises w' p = Resolved JNull \<and> length (trace w') = 1
     \<and> routers w' = routers oneSessionWorld \<and> tasks w' = [])"
proof -
  have v: "validation twoRequired [JNum 4] = Some MissingArgument"
    by (simp add: twoRequired_def)
  obtain es ps where pp: "prepareParameters (\<lambda>ps. ''[...]'') ''DOM.querySelector'' twoRequired [JNum 4] = (es, ps)"
    by (cases "prepareParameters (\<lambda>ps. ''[...]'') ''DOM.querySelector'' twoRequired [JNum 4]")
  obtain p w' where call: "sendMessageToBackendPromise (\<lambda>ps. ''[...]'') 0 ''DOM'' [''nodeId'']
                    ''DOM.querySelector'' twoRequired [JNum 4] oneSessionWorld = (p, w')"
    by (cases "sendMessageToBackendPromise (\<lambda>ps. ''[...]'') 0 ''DOM'' [''nodeId'']
                    ''DOM.querySelector'' twoRequired [JNum 4] oneSessionWorld")
  from argument_validation[of "\<lambda>ps. ''[...]''" "''DOM.querySelector''" twoRequired "[JNum 4]"
         0 "''DOM''" "[''nodeId'']" oneSessionWorld] pp call v
  have "promises w' p = Resolved JNull \<and> length (trace w') = 1
     \<and> routers w' = routers oneSessionWorld \<and> tasks w' = []"
    by (auto simp: oneSessionWorld_simps)
  with v call show ?thesis by simp
qed

text \<open>
  The claim as it was stated fails for an optional parameter whose argument is undefined:
  the code skips the parameter and consumes the argument, so the call passes, while the
  stated policy either checks the type of the argument or leaves it as an extra argument,
  and fails either way.
\<close>

theorem argument_validation_counterexample:
  "fst (prepareParameters (\<lambda>ps. ''[...]'') ''DOM.getDocument'' optionalDepth [JUndefined]) = [] \<and>
   \<not> statedValidation (\<lambda>args. args = []) optionalDepth [JUndefined] \<and>
   \<not> statedValidation (\<lambda>args. case args of [] \<Rightarrow> True | a # as \<Rightarrow> a = JUndefined)
        optionalDepth [JUndefined]"
  by (simp add: prepareParameters_def optionalDepth_def)

section \<open>The promise of a generated command\<close>

lemma resolvedValue_orNull [simp]:
  "resolvedValue inh ra (orNull e) (orNull r) = resolvedValue inh ra e r"
  by (simp add: resolvedValue_def orNull_def)


lemma settles_refl [simp]: "settles w w"
  by (simp add: settles_def)














lemma dispatchConnectionError_simps [simp]:
  "routers (dispatchConnectionError cb m w) = routers w"
  "trace (dispatchConnectionError cb m w) = trace w"
  "promises (dispatchConnectionError cb m w) = promises w"
  "tasks (dispatchConnectionError cb m w) =
     tasks w @ [CallbackTimer cb (connectionError ''Connection is closed, can't dispatch pending call to '' m)]"
  by (simp_all add: dispatchConnectionError_def)











end
